theory Spec2Isabelle
  imports Complex_Main "HOL-Library.Extended_Nat"
begin

section \<open>AGV traffic simulation: data model\<close>

text \<open>
  The simulation computes with JavaScript numbers. Coordinates, speeds and progress are
  modelled as real numbers (the idealisation of finite doubles); counters, identifiers
  and edge weights, which only ever hold non-negative integers, are natural numbers.
  Where the source divides by a quantity that can be zero the model writes out what
  the IEEE result does to the branch taken.
\<close>

record Node =
  node_id :: string
  node_x :: real
  node_y :: real
  node_label :: string

record Edge =
  source :: string
  target :: string
  edge_weight :: nat

record MapData =
  nodes :: "Node list"
  edges :: "Edge list"

record GraphNode =
  node :: string
  weight :: nat

text \<open>A graph object: its keys in enumeration order, each with its adjacency array.\<close>

type_synonym Graph = "(string \<times> GraphNode list) list"

datatype AGVStatus = IDLE | MOVING | WAITING | PLANNING | COMPLETED | REPATHING | BLOCKED | DETOUR

text \<open>
  The AGV record of \<^verbatim>\<open>types\<close>. \<open>agv_id\<close>, \<open>agv_x\<close>, \<open>agv_y\<close> are the fields
  \<^verbatim>\<open>id\<close>, \<^verbatim>\<open>x\<close>, \<^verbatim>\<open>y\<close>; \<open>color\<close> holds the hue of the \<^verbatim>\<open>hsl(...)\<close> string;
  \<open>None\<close> is \<^verbatim>\<open>null\<close>.
\<close>

record AGV =
  agv_id :: nat
  agv_x :: real
  agv_y :: real
  currentNode :: string
  previousNode :: "string option"
  targetNode :: "string option"
  path :: "string list"
  progress :: real
  progressDistance :: real
  orientation :: real
  status :: AGVStatus
  color :: real
  waitTimer :: nat
  waitReason :: "string option"
  maxSpeed :: real
  acceleration :: real
  deceleration :: real
  safetyDistance :: real
  hardBorrowLength :: nat
  currentSpeed :: real
  retryCount :: nat
  pathRank :: nat
  reservedNodes :: "string list"
  pathPlanningTime :: nat

record FleetConfig =
  cfg_maxSpeed :: real
  cfg_acceleration :: real
  cfg_deceleration :: real
  cfg_safetyDistance :: real
  cfg_hardBorrowLength :: nat

text \<open>What a call can do instead of returning a value.\<close>

datatype js_failure = TypeError | NoReturn | NotANumber

section \<open>Traffic manager\<close>

datatype Action = MOVE | WAIT | REPATH_HEAD_ON

record TrafficCheckResult =
  action :: Action
  conflictReason :: "string option"
  avoidData :: "(string \<times> string) option"
  blockerId :: "nat option"

text \<open>\<^verbatim>\<open>path[0]\<close>: \<open>None\<close> is \<^verbatim>\<open>undefined\<close>, read from an empty array.\<close>

definition pathHead :: "string list \<Rightarrow> string option" where
  "pathHead p = (case p of [] \<Rightarrow> None | n # _ \<Rightarrow> Some n)"

text \<open>A node id inside a template string.\<close>

definition showNode :: "string option \<Rightarrow> string" where
  "showNode n = (case n of None \<Rightarrow> ''undefined'' | Some s \<Rightarrow> s)"

definition digitChar :: "nat \<Rightarrow> char" where
  "digitChar d = char_of (48 + d)"

function natToString :: "nat \<Rightarrow> string" where
  "natToString n = (if n < 10 then [digitChar n] else natToString (n div 10) @ [digitChar (n mod 10)])"
  by pat_completeness auto
termination
  by (relation "measure id") auto

declare natToString.simps [simp del]

text \<open>\<^verbatim>\<open>s.slice(-4)\<close>: the last four characters.\<close>

definition sliceLast4 :: "string \<Rightarrow> string" where
  "sliceLast4 s = drop (length s - 4) s"

definition euclid :: "real \<Rightarrow> real \<Rightarrow> real \<Rightarrow> real \<Rightarrow> real" where
  "euclid ax ay bx by = sqrt ((ax - bx)\<^sup>2 + (ay - by)\<^sup>2)"

text \<open>\<^verbatim>\<open>Math.atan2(y, x)\<close> on real arguments (signed zeros are not distinguished).\<close>

definition atan2 :: "real \<Rightarrow> real \<Rightarrow> real" where
  "atan2 y x =
     (if 0 < x then arctan (y / x)
      else if x < 0 \<and> 0 \<le> y then arctan (y / x) + pi
      else if x < 0 then arctan (y / x) - pi
      else if 0 < y then pi / 2
      else if y < 0 then - (pi / 2)
      else 0)"

function wrapDown :: "real \<Rightarrow> real" where
  "wrapDown d = (if pi < d then wrapDown (d - 2 * pi) else d)"
  by pat_completeness auto
termination
proof (relation "measure (\<lambda>d. nat \<lceil>d / (2 * pi)\<rceil>)")
  show "wf (measure (\<lambda>d. nat \<lceil>d / (2 * pi)\<rceil>))" by simp
next
  fix d :: real
  assume h: "pi < d"
  have e: "(d - 2 * pi) / (2 * pi) = d / (2 * pi) - 1"
    by (simp add: diff_divide_distrib)
  have "0 < d" using h pi_gt_zero by linarith
  then have "0 < d / (2 * pi)" by (intro divide_pos_pos) (simp_all)
  then have "0 < \<lceil>d / (2 * pi)\<rceil>" by linarith
  then show "(d - 2 * pi, d) \<in> measure (\<lambda>d. nat \<lceil>d / (2 * pi)\<rceil>)"
    by (simp add: e)
qed

function wrapUp :: "real \<Rightarrow> real" where
  "wrapUp d = (if d < - pi then wrapUp (d + 2 * pi) else d)"
  by pat_completeness auto
termination
proof (relation "measure (\<lambda>d. nat \<lceil>- d / (2 * pi)\<rceil>)")
  show "wf (measure (\<lambda>d. nat \<lceil>- d / (2 * pi)\<rceil>))" by simp
next
  fix d :: real
  assume h: "d < - pi"
  have e: "- (d + 2 * pi) / (2 * pi) = - d / (2 * pi) - 1"
    by (simp add: diff_divide_distrib add_divide_distrib)
  have c: "\<lceil>- (d + 2 * pi) / (2 * pi)\<rceil> = \<lceil>- d / (2 * pi)\<rceil> - 1"
    by (simp only: e ceiling_diff_one)
  have "0 < - d" using h pi_gt_zero by linarith
  then have "0 < - d / (2 * pi)" by (intro divide_pos_pos) (simp_all)
  then have "0 < \<lceil>- d / (2 * pi)\<rceil>" by linarith
  then have "nat \<lceil>- (d + 2 * pi) / (2 * pi)\<rceil> < nat \<lceil>- d / (2 * pi)\<rceil>"
    using c by linarith
  then show "(d + 2 * pi, d) \<in> measure (\<lambda>d. nat \<lceil>- d / (2 * pi)\<rceil>)"
    by (simp only: in_measure)
qed

declare wrapDown.simps [simp del] wrapUp.simps [simp del]

subsection \<open>The rule conditions, in the order of the source\<close>

text \<open>Hard path borrow check: another AGV holds a reservation on my next node.\<close>

definition reservingAgv :: "AGV \<Rightarrow> AGV list \<Rightarrow> AGV option" where
  "reservingAgv currentAgv allAgvs =
     (case path currentAgv of
        [] \<Rightarrow> None
      | myNextNode # _ \<Rightarrow>
          if progress currentAgv < 0.05
          then find (\<lambda>other. agv_id other \<noteq> agv_id currentAgv
                            \<and> myNextNode \<in> set (reservedNodes other)) allAgvs
          else None)"

text \<open>1. Head-on collision prevention.\<close>

definition headOn :: "AGV \<Rightarrow> AGV \<Rightarrow> bool" where
  "headOn currentAgv other \<longleftrightarrow>
     pathHead (path currentAgv) = Some (currentNode other)
     \<and> pathHead (path other) = Some (currentNode currentAgv)"

text \<open>2, conflict A: the destination is occupied by a stationary AGV.\<close>

definition destOccupied :: "AGV \<Rightarrow> AGV \<Rightarrow> bool" where
  "destOccupied currentAgv other \<longleftrightarrow>
     progress currentAgv < 0.05
     \<and> Some (currentNode other) = pathHead (path currentAgv) \<and> progress other < 0.05"

text \<open>2, conflict B: destination contention, the closer AGV goes first.\<close>

definition entryContention :: "AGV \<Rightarrow> AGV \<Rightarrow> Node \<Rightarrow> bool" where
  "entryContention currentAgv other nextNodeObj \<longleftrightarrow>
     progress currentAgv < 0.05
     \<and> pathHead (path other) = pathHead (path currentAgv)
     \<and> (let myDist = euclid (node_x nextNodeObj) (node_y nextNodeObj) (agv_x currentAgv) (agv_y currentAgv);
            otherDist = euclid (node_x nextNodeObj) (node_y nextNodeObj) (agv_x other) (agv_y other)
        in otherDist < myDist \<or> (\<bar>otherDist - myDist\<bar> < 5 \<and> agv_id other < agv_id currentAgv))"

text \<open>3. Node occupied (standard check for moving AGVs).\<close>

definition nodeOccupied :: "AGV \<Rightarrow> AGV \<Rightarrow> Node \<Rightarrow> bool" where
  "nodeOccupied currentAgv other currentNodeObj \<longleftrightarrow>
     pathHead (path currentAgv) = Some (currentNode other)
     \<and> euclid (node_x currentNodeObj) (node_y currentNodeObj) (agv_x other) (agv_y other) < 60"

text \<open>4. Merge priority (mid-edge conflict).\<close>

definition mergeYield :: "AGV \<Rightarrow> AGV \<Rightarrow> Node \<Rightarrow> bool" where
  "mergeYield currentAgv other nextNodeObj \<longleftrightarrow>
     pathHead (path currentAgv) = pathHead (path other) \<and> 0.05 \<le> progress currentAgv
     \<and> (let myDist = euclid (node_x nextNodeObj) (node_y nextNodeObj) (agv_x currentAgv) (agv_y currentAgv);
            otherDist = euclid (node_x nextNodeObj) (node_y nextNodeObj) (agv_x other) (agv_y other)
        in otherDist + 15 < myDist)"

text \<open>
  5. Directional proximity (front sensor). For a zero-length edge the source computes
  \<^verbatim>\<open>0 / 0\<close>, the future distance is not a number and the comparison is false; over the
  reals the quotient is \<open>0\<close>, the future distance is the present one and the strict
  comparison is false as well.
\<close>

definition frontSensor :: "AGV \<Rightarrow> AGV \<Rightarrow> Node \<Rightarrow> Node \<Rightarrow> bool" where
  "frontSensor currentAgv other currentNodeObj nextNodeObj \<longleftrightarrow>
     (let physDist = euclid (agv_x currentAgv) (agv_y currentAgv) (agv_x other) (agv_y other)
      in physDist < safetyDistance currentAgv
         \<and> (let dx = node_x nextNodeObj - node_x currentNodeObj;
                dy = node_y nextNodeObj - node_y currentNodeObj;
                headingAngle = atan2 dy dx;
                otherDx = agv_x other - agv_x currentAgv;
                otherDy = agv_y other - agv_y currentAgv;
                angleToOther = atan2 otherDy otherDx;
                diff = wrapUp (wrapDown (angleToOther - headingAngle));
                isObstacleInFront = (\<bar>diff\<bar> < pi / 2)
            in isObstacleInFront
               \<and> (let totalDist = sqrt (dx * dx + dy * dy);
                      moveX = (dx / totalDist) * currentSpeed currentAgv;
                      moveY = (dy / totalDist) * currentSpeed currentAgv;
                      futureX = agv_x currentAgv + moveX;
                      futureY = agv_y currentAgv + moveY;
                      futureDist = sqrt ((futureX - agv_x other)\<^sup>2 + (futureY - agv_y other)\<^sup>2)
                  in futureDist < physDist)))"

definition verdict :: "Action \<Rightarrow> string \<Rightarrow> (string \<times> string) option \<Rightarrow> nat \<Rightarrow> TrafficCheckResult" where
  "verdict a r e b = \<lparr>action = a, conflictReason = Some r, avoidData = e, blockerId = Some b\<rparr>"

text \<open>The body of the loop over \<^verbatim>\<open>allAgvs\<close>: \<open>None\<close> when the iteration ends without \<^verbatim>\<open>break\<close>.\<close>

definition checkOther :: "AGV \<Rightarrow> AGV \<Rightarrow> Node \<Rightarrow> Node \<Rightarrow> TrafficCheckResult option" where
  "checkOther currentAgv other currentNodeObj nextNodeObj =
     (let myCurrent = currentNode currentAgv; myNext = pathHead (path currentAgv) in
      if headOn currentAgv other
      then Some (verdict REPATH_HEAD_ON (''Head-on w/ AGV-'' @ sliceLast4 (natToString (agv_id other)))
                   (Some (myCurrent, showNode myNext)) (agv_id other))
      else if destOccupied currentAgv other
      then Some (verdict WAIT (''Dest '' @ showNode myNext @ '' Occupied'') None (agv_id other))
      else if entryContention currentAgv other nextNodeObj
      then Some (verdict WAIT (''Yield Entry to '' @ showNode myNext @ '' (Queue)'') None (agv_id other))
      else if nodeOccupied currentAgv other currentNodeObj
      then Some (verdict WAIT (''Waiting Node '' @ showNode myNext) None (agv_id other))
      else if mergeYield currentAgv other nextNodeObj
      then Some (verdict WAIT ''Merge Yield'' None (agv_id other))
      else if frontSensor currentAgv other currentNodeObj nextNodeObj
      then Some (verdict WAIT ''Front Sensor: Stop'' None (agv_id other))
      else None)"

fun scanAgvs :: "AGV \<Rightarrow> AGV list \<Rightarrow> Node \<Rightarrow> Node \<Rightarrow> TrafficCheckResult" where
  "scanAgvs currentAgv [] currentNodeObj nextNodeObj =
     \<lparr>action = MOVE, conflictReason = None, avoidData = None, blockerId = None\<rparr>"
| "scanAgvs currentAgv (other # rest) currentNodeObj nextNodeObj =
     (if agv_id other = agv_id currentAgv then scanAgvs currentAgv rest currentNodeObj nextNodeObj
      else case checkOther currentAgv other currentNodeObj nextNodeObj of
             Some r \<Rightarrow> r
           | None \<Rightarrow> scanAgvs currentAgv rest currentNodeObj nextNodeObj)"

definition checkTrafficRules :: "AGV \<Rightarrow> AGV list \<Rightarrow> Node \<Rightarrow> Node \<Rightarrow> TrafficCheckResult" where
  "checkTrafficRules currentAgv allAgvs currentNodeObj nextNodeObj =
     (case reservingAgv currentAgv allAgvs of
        Some r \<Rightarrow> verdict WAIT (''Node '' @ showNode (pathHead (path currentAgv)) @ '' Reserved'') None (agv_id r)
      | None \<Rightarrow> scanAgvs currentAgv allAgvs currentNodeObj nextNodeObj)"

section \<open>Pathfinding\<close>

text \<open>
  \<^verbatim>\<open>distances\<close> and \<^verbatim>\<open>previous\<close> are objects keyed by node id: a key that was never
  written reads \<^verbatim>\<open>undefined\<close> (\<open>None\<close>). A distance is a number or \<^verbatim>\<open>Infinity\<close>; an
  entry of \<^verbatim>\<open>previous\<close> is a node id or \<^verbatim>\<open>null\<close> (\<open>Some None\<close>).
\<close>

type_synonym distances = "string \<rightharpoonup> enat"
type_synonym previous = "string \<rightharpoonup> string option"

definition isEdgeAvoided :: "(string \<times> string) list \<Rightarrow> string \<Rightarrow> string \<Rightarrow> bool" where
  "isEdgeAvoided avoidEdges u v \<longleftrightarrow>
     list_ex (\<lambda>e. (fst e = u \<and> snd e = v) \<or> (fst e = v \<and> snd e = u)) avoidEdges"

text \<open>
  One iteration of the loop over \<^verbatim>\<open>graph[u]\<close>. A comparison with \<^verbatim>\<open>undefined\<close> is false,
  so a neighbour that is no key of \<^verbatim>\<open>distances\<close> is left alone.
\<close>

definition relax :: "string list \<Rightarrow> (string \<times> string) list \<Rightarrow> string \<Rightarrow> GraphNode
    \<Rightarrow> distances \<times> previous \<Rightarrow> distances \<times> previous" where
  "relax avoidNodes avoidEdges u neighbor dp =
     (if node neighbor \<in> set avoidNodes then dp
      else if isEdgeAvoided avoidEdges u (node neighbor) then dp
      else case fst dp u of
             None \<Rightarrow> dp
           | Some du \<Rightarrow>
               (let alt = du + enat (weight neighbor) in
                case fst dp (node neighbor) of
                  None \<Rightarrow> dp
                | Some dn \<Rightarrow>
                    if alt < dn
                    then ((fst dp)(node neighbor \<mapsto> alt), (snd dp)(node neighbor \<mapsto> Some u))
                    else dp))"

text \<open>The sort key of a queue entry; every queue entry is a key of \<^verbatim>\<open>distances\<close>.\<close>

definition distKey :: "distances \<Rightarrow> string \<Rightarrow> enat" where
  "distKey d n = (case d n of None \<Rightarrow> \<infinity> | Some x \<Rightarrow> x)"

text \<open>
  The main loop: the queue is sorted (a stable sort) by distance and its head removed.
  \<open>guard\<close> says whether the loop has the test \<^verbatim>\<open>if (!u) break\<close>, which the empty string
  triggers: the module \<^verbatim>\<open>pathfinding\<close> has it, the single-file version does not.
\<close>

function dijkstraLoop :: "bool \<Rightarrow> Graph \<Rightarrow> string \<Rightarrow> string list \<Rightarrow> (string \<times> string) list
    \<Rightarrow> distances \<times> previous \<Rightarrow> string list \<Rightarrow> js_failure + distances \<times> previous" where
  "dijkstraLoop guard graph targetNodeId avoidNodes avoidEdges dp queue =
     (case sort_key (distKey (fst dp)) queue of
        [] \<Rightarrow> Inr dp
      | u # rest \<Rightarrow>
          if guard \<and> u = [] then Inr dp
          else if u = targetNodeId then Inr dp
          else if fst dp u = Some \<infinity> then Inr dp
          else (case map_of graph u of
                  None \<Rightarrow> Inl TypeError
                | Some neighbors \<Rightarrow>
                    dijkstraLoop guard graph targetNodeId avoidNodes avoidEdges
                      (fold (relax avoidNodes avoidEdges u) neighbors dp) rest))"
  by pat_completeness auto
termination
proof (relation "measure (\<lambda>(guard, graph, targetNodeId, avoidNodes, avoidEdges, dp, queue). length queue)")
  show "wf (measure (\<lambda>(guard, graph, targetNodeId, avoidNodes, avoidEdges, dp, queue). length queue))"
    by simp
next
  fix guard :: bool and graph :: Graph and targetNodeId :: string and avoidNodes :: "string list"
    and avoidEdges :: "(string \<times> string) list" and dp :: "distances \<times> previous"
    and queue :: "string list" and u :: string and rest :: "string list" and neighbors :: "GraphNode list"
  assume "sort_key (distKey (fst dp)) queue = u # rest"
  then have "length queue = Suc (length rest)"
    by (metis length_Cons length_sort)
  then show "((guard, graph, targetNodeId, avoidNodes, avoidEdges,
               fold (relax avoidNodes avoidEdges u) neighbors dp, rest),
              (guard, graph, targetNodeId, avoidNodes, avoidEdges, dp, queue))
             \<in> measure (\<lambda>(guard, graph, targetNodeId, avoidNodes, avoidEdges, dp, queue). length queue)"
    by simp
qed

declare dijkstraLoop.simps [simp del]

text \<open>
  The reconstruction loop \<^verbatim>\<open>while (u !== null) { path.unshift(u); u = previous[u]; }\<close>.
  For a \<^verbatim>\<open>u\<close> that is no key, \<^verbatim>\<open>previous[u]\<close> is \<^verbatim>\<open>undefined\<close>, which is not \<^verbatim>\<open>null\<close>:
  the loop goes on from \<^verbatim>\<open>undefined\<close> and is recorded here as not returning.
\<close>

partial_function (option) walkBack :: "previous \<Rightarrow> string \<Rightarrow> string list \<Rightarrow> string list option" where
  "walkBack prev u acc =
     (case prev u of
        None \<Rightarrow> None
      | Some None \<Rightarrow> Some (u # acc)
      | Some (Some v) \<Rightarrow> walkBack prev v (u # acc))"

declare walkBack.simps [code]

definition findPathGen :: "bool \<Rightarrow> string \<Rightarrow> string \<Rightarrow> Graph \<Rightarrow> string list \<Rightarrow> (string \<times> string) list
    \<Rightarrow> js_failure + string list" where
  "findPathGen guard startNodeId targetNodeId graph avoidNodes avoidEdges =
     (let keys = map fst graph;
          distances0 = (map_of (map (\<lambda>k. (k, \<infinity>)) keys))(startNodeId \<mapsto> 0);
          previous0 = map_of (map (\<lambda>k. (k, None)) keys)
      in case dijkstraLoop guard graph targetNodeId avoidNodes avoidEdges (distances0, previous0) keys of
           Inl e \<Rightarrow> Inl e
         | Inr dp \<Rightarrow>
             if snd dp targetNodeId \<noteq> Some None \<or> targetNodeId = startNodeId
             then (case walkBack (snd dp) targetNodeId [] of
                     None \<Rightarrow> Inl NoReturn
                   | Some p \<Rightarrow> Inr (tl p))
             else Inr [])"

text \<open>\<^verbatim>\<open>findPath\<close> of the module \<^verbatim>\<open>pathfinding\<close>, and of the single-file version.\<close>

definition findPath :: "string \<Rightarrow> string \<Rightarrow> Graph \<Rightarrow> string list \<Rightarrow> (string \<times> string) list
    \<Rightarrow> js_failure + string list" where
  "findPath = findPathGen True"

definition findPathJsx :: "string \<Rightarrow> string \<Rightarrow> Graph \<Rightarrow> string list \<Rightarrow> (string \<times> string) list
    \<Rightarrow> js_failure + string list" where
  "findPathJsx = findPathGen False"

subsection \<open>Paths of the constrained graph\<close>

text \<open>
  A step from \<open>u\<close> along the adjacency entry \<open>nb\<close> is allowed when the entry belongs to
  \<open>u\<close>, its node is not avoided and the undirected edge is not avoided. A route is the
  list of adjacency entries taken, so it excludes the start node.
\<close>

definition allowedStep :: "Graph \<Rightarrow> string list \<Rightarrow> (string \<times> string) list \<Rightarrow> string \<Rightarrow> GraphNode \<Rightarrow> bool" where
  "allowedStep graph avoidNodes avoidEdges u nb \<longleftrightarrow>
     (case map_of graph u of None \<Rightarrow> False | Some ns \<Rightarrow> nb \<in> set ns)
     \<and> node nb \<notin> set avoidNodes \<and> \<not> isEdgeAvoided avoidEdges u (node nb)"

fun route :: "Graph \<Rightarrow> string list \<Rightarrow> (string \<times> string) list \<Rightarrow> string \<Rightarrow> GraphNode list \<Rightarrow> bool" where
  "route graph avoidNodes avoidEdges u [] = True"
| "route graph avoidNodes avoidEdges u (nb # rest) =
     (allowedStep graph avoidNodes avoidEdges u nb \<and> route graph avoidNodes avoidEdges (node nb) rest)"

definition routeEnd :: "string \<Rightarrow> GraphNode list \<Rightarrow> string" where
  "routeEnd u steps = (if steps = [] then u else node (last steps))"

definition cost :: "GraphNode list \<Rightarrow> nat" where
  "cost steps = sum_list (map weight steps)"

definition routeTo :: "Graph \<Rightarrow> string list \<Rightarrow> (string \<times> string) list \<Rightarrow> string \<Rightarrow> string
    \<Rightarrow> GraphNode list \<Rightarrow> bool" where
  "routeTo graph avoidNodes avoidEdges s t steps \<longleftrightarrow>
     route graph avoidNodes avoidEdges s steps \<and> routeEnd s steps = t"

definition wellFormedGraph :: "Graph \<Rightarrow> bool" where
  "wellFormedGraph graph \<longleftrightarrow>
     distinct (map fst graph) \<and> [] \<notin> set (map fst graph)
     \<and> list_all (\<lambda>kv. list_all (\<lambda>nb. 0 < weight nb) (snd kv)) graph"

subsection \<open>The invariant of the main loop\<close>

definition graphKeys :: "Graph \<Rightarrow> string set" where
  "graphKeys graph = set (map fst graph)"

text \<open>The two tests a neighbour passes before it is relaxed.\<close>

definition stepOk :: "string list \<Rightarrow> (string \<times> string) list \<Rightarrow> string \<Rightarrow> GraphNode \<Rightarrow> bool" where
  "stepOk avoidNodes avoidEdges u nb \<longleftrightarrow>
     node nb \<notin> set avoidNodes \<and> \<not> isEdgeAvoided avoidEdges u (node nb)"

text \<open>
  The predecessor of a node \<open>v\<close> is null for the start node and for a node at distance
  \<^verbatim>\<open>Infinity\<close>; otherwise it is a node of \<open>S\<close> at finite distance from which an allowed
  step leads to \<open>v\<close>, and the distances differ by the weight of that step.
\<close>

definition predOk :: "Graph \<Rightarrow> string list \<Rightarrow> (string \<times> string) list \<Rightarrow> string \<Rightarrow> distances
    \<Rightarrow> previous \<Rightarrow> string set \<Rightarrow> string \<Rightarrow> bool" where
  "predOk g an ae s d p S v \<longleftrightarrow>
     (case p v of
        None \<Rightarrow> False
      | Some None \<Rightarrow> v = s \<or> distKey d v = \<infinity>
      | Some (Some u) \<Rightarrow>
          v \<noteq> s \<and> u \<in> S \<and> distKey d u < \<infinity>
          \<and> (\<exists>nb. allowedStep g an ae u nb \<and> node nb = v
                \<and> distKey d v = distKey d u + enat (weight nb)))"

text \<open>
  The invariant: the nodes no longer in the queue are settled. Their distance is finite,
  a lower bound of the cost of every route from the start, and at most the distance of
  any node in the queue; every allowed step out of a settled node has been relaxed.
\<close>

definition dijkstraInv :: "Graph \<Rightarrow> string list \<Rightarrow> (string \<times> string) list \<Rightarrow> string
    \<Rightarrow> distances \<times> previous \<Rightarrow> string list \<Rightarrow> bool" where
  "dijkstraInv g an ae s dp q \<longleftrightarrow>
     distinct q \<and> set q \<subseteq> graphKeys g
     \<and> (\<forall>k \<in> graphKeys g. fst dp k \<noteq> None)
     \<and> fst dp s = Some 0
     \<and> (\<forall>v \<in> graphKeys g - set q. \<forall>steps. routeTo g an ae s v steps
            \<longrightarrow> distKey (fst dp) v \<le> enat (cost steps))
     \<and> (\<forall>x \<in> graphKeys g - set q. distKey (fst dp) x < \<infinity>
            \<and> (\<forall>y \<in> set q. distKey (fst dp) x \<le> distKey (fst dp) y))
     \<and> (\<forall>x \<in> graphKeys g - set q. \<forall>nb. allowedStep g an ae x nb \<longrightarrow> node nb \<in> graphKeys g
            \<longrightarrow> distKey (fst dp) (node nb) \<le> distKey (fst dp) x + enat (weight nb))
     \<and> (\<forall>v \<in> graphKeys g. predOk g an ae s (fst dp) (snd dp) (graphKeys g - set q) v)"

text \<open>What the main loop leaves: the distance of the target is a lower bound of the cost of every route to it.\<close>

definition dijkstraPost :: "Graph \<Rightarrow> string list \<Rightarrow> (string \<times> string) list \<Rightarrow> string \<Rightarrow> string
    \<Rightarrow> distances \<times> previous \<Rightarrow> bool" where
  "dijkstraPost g an ae s t dp \<longleftrightarrow>
     fst dp s = Some 0
     \<and> (\<forall>v \<in> graphKeys g. predOk g an ae s (fst dp) (snd dp) (graphKeys g) v)
     \<and> (\<forall>steps. routeTo g an ae s t steps \<longrightarrow> distKey (fst dp) t \<le> enat (cost steps))"

section \<open>The simulation hook\<close>

definition RETRY_INTERVAL :: nat where
  "RETRY_INTERVAL = 60"

text \<open>Truthiness of a \<^verbatim>\<open>string | null\<close>: \<^verbatim>\<open>null\<close> and the empty string are falsy.\<close>

definition truthy :: "string option \<Rightarrow> bool" where
  "truthy v = (case v of None \<Rightarrow> False | Some s \<Rightarrow> s \<noteq> [])"

definition findNode :: "MapData \<Rightarrow> string \<Rightarrow> Node option" where
  "findNode mapData i = find (\<lambda>n. node_id n = i) (nodes mapData)"

text \<open>
  \<^verbatim>\<open>xs[Math.floor(r * xs.length)]\<close>, where \<open>r\<close> is a result of \<^verbatim>\<open>Math.random()\<close>:
  \<open>None\<close> is \<^verbatim>\<open>undefined\<close>, read outside the array.
\<close>

definition pick :: "real \<Rightarrow> 'a list \<Rightarrow> 'a option" where
  "pick r xs =
     (let i = \<lfloor>r * real (length xs)\<rfloor>
      in if 0 \<le> i \<and> i < int (length xs) then Some (xs ! nat i) else None)"

subsection \<open>Spawning\<close>

text \<open>
  \<open>rNode\<close> and \<open>rColor\<close> are the two results of \<^verbatim>\<open>Math.random()\<close>, \<open>nowId\<close> and \<open>nowPlan\<close>
  the two results of \<^verbatim>\<open>Date.now()\<close>. Reading \<^verbatim>\<open>startNode.x\<close> of \<^verbatim>\<open>undefined\<close> throws
  before \<^verbatim>\<open>setAgvs\<close> is reached; \<open>Inr\<close> carries the fleet handed to \<^verbatim>\<open>setAgvs\<close>.
\<close>

definition safeNodes :: "MapData \<Rightarrow> FleetConfig \<Rightarrow> AGV list \<Rightarrow> Node list" where
  "safeNodes mapData fleetConfig agvs =
     filter (\<lambda>n. \<not> list_ex (\<lambda>agv. euclid (agv_x agv) (agv_y agv) (node_x n) (node_y n)
                                   < cfg_safetyDistance fleetConfig * 2) agvs) (nodes mapData)"

text \<open>The nodes the start node is drawn from: the safe nodes, or all nodes as fallback.\<close>

definition spawnPool :: "MapData \<Rightarrow> FleetConfig \<Rightarrow> AGV list \<Rightarrow> Node list" where
  "spawnPool mapData fleetConfig agvs =
     (if 0 < length (safeNodes mapData fleetConfig agvs) then safeNodes mapData fleetConfig agvs
      else nodes mapData)"

text \<open>The vehicle created at a start node.\<close>

definition newAgv :: "FleetConfig \<Rightarrow> Node \<Rightarrow> real \<Rightarrow> nat \<Rightarrow> nat \<Rightarrow> AGV" where
  "newAgv fleetConfig startNode rColor nowId nowPlan =
     \<lparr>agv_id = nowId, agv_x = node_x startNode, agv_y = node_y startNode,
      currentNode = node_id startNode, previousNode = None, targetNode = None,
      path = [], progress = 0, progressDistance = 0, orientation = 0,
      status = IDLE, color = rColor * 360, waitTimer = 0, waitReason = None,
      maxSpeed = cfg_maxSpeed fleetConfig,
      acceleration = cfg_acceleration fleetConfig,
      deceleration = cfg_deceleration fleetConfig,
      safetyDistance = cfg_safetyDistance fleetConfig,
      hardBorrowLength = cfg_hardBorrowLength fleetConfig,
      currentSpeed = 0, retryCount = 0, pathRank = 0, reservedNodes = [],
      pathPlanningTime = nowPlan\<rparr>"

definition spawnAgv :: "MapData \<Rightarrow> FleetConfig \<Rightarrow> AGV list \<Rightarrow> real \<Rightarrow> real \<Rightarrow> nat \<Rightarrow> nat
    \<Rightarrow> js_failure + AGV list" where
  "spawnAgv mapData fleetConfig agvs rNode rColor nowId nowPlan =
     (case pick rNode (spawnPool mapData fleetConfig agvs) of
        None \<Rightarrow> Inl TypeError
      | Some startNode \<Rightarrow> Inr (agvs @ [newAgv fleetConfig startNode rColor nowId nowPlan]))"

subsection \<open>One AGV in one tick\<close>

text \<open>Random move logic (auto-pilot): the nodes a vehicle may be sent to.\<close>

definition possibleTargets :: "MapData \<Rightarrow> AGV list \<Rightarrow> AGV \<Rightarrow> Node list" where
  "possibleTargets mapData prevAgvs agv =
     (let reservedTargets =
            map targetNode (filter (\<lambda>a. agv_id a \<noteq> agv_id agv \<and> truthy (targetNode a)) prevAgvs)
      in filter (\<lambda>n. node_id n \<noteq> currentNode agv \<and> Some (node_id n) \<notin> set reservedTargets)
           (nodes mapData))"

text \<open>
  \<open>r1\<close> and \<open>r2\<close> are the results of the two calls of \<^verbatim>\<open>Math.random()\<close>, \<open>now\<close> that of
  \<^verbatim>\<open>Date.now()\<close>. \<open>None\<close>: the auto-pilot does not return, the movement logic runs.
\<close>

definition autoPilot :: "MapData \<Rightarrow> Graph \<Rightarrow> bool \<Rightarrow> AGV list \<Rightarrow> real \<Rightarrow> real \<Rightarrow> nat \<Rightarrow> AGV
    \<Rightarrow> (js_failure + AGV) option" where
  "autoPilot mapData graph randomMoveMode prevAgvs r1 r2 now agv =
     (if randomMoveMode \<and> (status agv = IDLE \<or> status agv = COMPLETED) \<and> currentSpeed agv < 0.1
      then if r1 < 0.05
           then (let pts = possibleTargets mapData prevAgvs agv in
                 if 0 < length pts
                 then (case pick r2 pts of
                         None \<Rightarrow> Some (Inl TypeError)
                       | Some randomTarget \<Rightarrow>
                           (case findPath (currentNode agv) (node_id randomTarget) graph [] [] of
                              Inl e \<Rightarrow> Some (Inl e)
                            | Inr newPath \<Rightarrow>
                                Some (Inr (agv\<lparr>targetNode := Some (node_id randomTarget),
                                               path := newPath, status := PLANNING,
                                               waitTimer := 0, retryCount := 0, pathRank := 0,
                                               reservedNodes := take (hardBorrowLength agv) newPath,
                                               pathPlanningTime := now\<rparr>))))
                 else None)
           else None
      else None)"

text \<open>No target or no path: the vehicle idles.\<close>

definition idle :: "AGV \<Rightarrow> AGV" where
  "idle agv =
     (let newSpeed = max 0 (currentSpeed agv - deceleration agv)
      in agv\<lparr>status := IDLE, currentSpeed := newSpeed, waitTimer := 0, reservedNodes := []\<rparr>)"

text \<open>Redirection logic, taken when the arbiter answers \<^verbatim>\<open>REPATH_HEAD_ON\<close>.\<close>

definition repathHeadOn :: "Graph \<Rightarrow> nat \<Rightarrow> AGV \<Rightarrow> string \<Rightarrow> string \<Rightarrow> real
    \<Rightarrow> (string \<times> string) option \<Rightarrow> js_failure + AGV" where
  "repathHeadOn graph now agv tgt nextNodeId currentEdgeDistance avoid =
     (let avoidEdges = (case avoid of None \<Rightarrow> [] | Some e \<Rightarrow> [e]) in
      case findPath (currentNode agv) tgt graph [] avoidEdges of
        Inl e \<Rightarrow> Inl e
      | Inr detourPath \<Rightarrow>
          if 0 < length detourPath
          then (let newReservedNodes = take (hardBorrowLength agv) detourPath in
                if progress agv < 0.05
                then Inr (agv\<lparr>path := detourPath, status := REPATHING, waitTimer := 0,
                              pathRank := 0, currentSpeed := 0,
                              reservedNodes := newReservedNodes, pathPlanningTime := now\<rparr>)
                else Inr (agv\<lparr>currentNode := nextNodeId,
                              path := currentNode agv # detourPath,
                              progress := 1 - progress agv,
                              progressDistance := currentEdgeDistance * (1 - progress agv),
                              status := REPATHING, waitTimer := 0, currentSpeed := 0,
                              pathRank := 0, reservedNodes := newReservedNodes\<rparr>))
          else Inr (agv\<lparr>status := BLOCKED, waitTimer := 0,
                        currentSpeed := max 0 (currentSpeed agv - deceleration agv),
                        reservedNodes := []\<rparr>))"

text \<open>
  Step back logic: the node to retreat to and whether the vehicle reverses mid-edge.
  \<^verbatim>\<open>graph[agv.currentNode]\<close> is read whenever the progress is at most 0.1; calling a
  method of \<^verbatim>\<open>undefined\<close> throws.
\<close>

definition stepBackChoice :: "Graph \<Rightarrow> AGV \<Rightarrow> string \<Rightarrow> js_failure + string option \<times> bool" where
  "stepBackChoice graph agv nextNodeId =
     (if 0.1 < progress agv then Inr (Some (currentNode agv), True)
      else case map_of graph (currentNode agv) of
             None \<Rightarrow> Inl TypeError
           | Some ns \<Rightarrow>
               if truthy (previousNode agv) \<and> list_ex (\<lambda>n. Some (node n) = previousNode agv) ns
               then Inr (previousNode agv, False)
               else (case filter (\<lambda>n. n \<noteq> nextNodeId) (map node ns) of
                       [] \<Rightarrow> Inr (None, False)
                     | v # _ \<Rightarrow> Inr (Some v, False)))"

text \<open>\<open>Inr None\<close>: no step back was made, the standard retry follows.\<close>

definition stepBack :: "Graph \<Rightarrow> AGV \<Rightarrow> string \<Rightarrow> string \<Rightarrow> real \<Rightarrow> js_failure + AGV option" where
  "stepBack graph agv tgt nextNodeId currentEdgeDistance =
     (case stepBackChoice graph agv nextNodeId of
        Inl e \<Rightarrow> Inl e
      | Inr (stepBackNode, isReversingMidEdge) \<Rightarrow>
          (case stepBackNode of
             None \<Rightarrow> Inr None
           | Some sb \<Rightarrow>
               if sb = [] then Inr None
               else (case findPath sb tgt graph [] [] of
                       Inl e \<Rightarrow> Inl e
                     | Inr newPathToTarget \<Rightarrow>
                         (let newReservedNodes = take (hardBorrowLength agv) newPathToTarget in
                          if isReversingMidEdge
                          then Inr (Some (agv\<lparr>currentNode := nextNodeId,
                                  path := currentNode agv # newPathToTarget,
                                  progress := 1 - progress agv,
                                  progressDistance := currentEdgeDistance * (1 - progress agv),
                                  status := REPATHING, waitTimer := 0, retryCount := 0,
                                  currentSpeed := 0, reservedNodes := newReservedNodes\<rparr>))
                          else Inr (Some (agv\<lparr>path := sb # newPathToTarget, status := DETOUR,
                                  waitTimer := 0, retryCount := 0, currentSpeed := 0,
                                  reservedNodes := newReservedNodes\<rparr>))))))"

text \<open>Standard ranked retry: look for a path that avoids the blocked node.\<close>

definition rankedRetry :: "Graph \<Rightarrow> AGV \<Rightarrow> string \<Rightarrow> string \<Rightarrow> real \<Rightarrow> string option \<Rightarrow> real \<Rightarrow> nat
    \<Rightarrow> js_failure + AGV" where
  "rankedRetry graph agv tgt nextNodeId currentEdgeDistance reason newSpeed newRetryCount =
     (let blockedNodeId = nextNodeId; oldCurrentNodeId = currentNode agv in
      case findPath oldCurrentNodeId tgt graph [blockedNodeId] [] of
        Inl e \<Rightarrow> Inl e
      | Inr detourPath \<Rightarrow>
          if 0 < length detourPath
          then (let newReservedNodes = take (hardBorrowLength agv) detourPath in
                if 0 < progress agv
                then Inr (agv\<lparr>currentNode := blockedNodeId,
                              path := oldCurrentNodeId # detourPath,
                              progress := 1 - progress agv,
                              progressDistance := currentEdgeDistance * (1 - progress agv),
                              status := DETOUR, waitTimer := 0, currentSpeed := 0,
                              retryCount := 0, pathRank := 0, reservedNodes := newReservedNodes\<rparr>)
                else Inr (agv\<lparr>path := detourPath, status := DETOUR, waitTimer := 0,
                              retryCount := 0, pathRank := 0, currentSpeed := 0,
                              reservedNodes := newReservedNodes\<rparr>))
          else Inr (agv\<lparr>status := WAITING, waitReason := reason, waitTimer := 0,
                        currentSpeed := newSpeed, retryCount := newRetryCount,
                        reservedNodes := []\<rparr>))"

definition isBlockerWaiting :: "AGV list \<Rightarrow> nat option \<Rightarrow> bool" where
  "isBlockerWaiting prevAgvs blocker =
     (case find (\<lambda>a. Some (agv_id a) = blocker) prevAgvs of
        None \<Rightarrow> False
      | Some b \<Rightarrow> status b = WAITING \<or> status b = BLOCKED)"

text \<open>The step back is tried from the third retry on, when the blocker itself waits.\<close>

definition stepBackAttempt :: "Graph \<Rightarrow> AGV list \<Rightarrow> AGV \<Rightarrow> string \<Rightarrow> string \<Rightarrow> real \<Rightarrow> nat option
    \<Rightarrow> js_failure + AGV option" where
  "stepBackAttempt graph prevAgvs agv tgt nextNodeId currentEdgeDistance blocker =
     (let newRetryCount = retryCount agv + 1 in
      if 3 \<le> newRetryCount \<and> isBlockerWaiting prevAgvs blocker
      then stepBack graph agv tgt nextNodeId currentEdgeDistance
      else Inr None)"

definition waitBranch :: "Graph \<Rightarrow> AGV list \<Rightarrow> AGV \<Rightarrow> string \<Rightarrow> string \<Rightarrow> real \<Rightarrow> string option
    \<Rightarrow> nat option \<Rightarrow> js_failure + AGV" where
  "waitBranch graph prevAgvs agv tgt nextNodeId currentEdgeDistance reason blocker =
     (let newSpeed = max 0 (currentSpeed agv - deceleration agv);
          newTimer = waitTimer agv + 1
      in if RETRY_INTERVAL < newTimer
         then (let newRetryCount = retryCount agv + 1 in
               case stepBackAttempt graph prevAgvs agv tgt nextNodeId currentEdgeDistance blocker of
                 Inl e \<Rightarrow> Inl e
               | Inr (Some stepped) \<Rightarrow> Inr stepped
               | Inr None \<Rightarrow>
                   rankedRetry graph agv tgt nextNodeId currentEdgeDistance reason newSpeed newRetryCount)
         else Inr (agv\<lparr>status := WAITING, waitReason := reason, waitTimer := newTimer,
                       currentSpeed := newSpeed\<rparr>))"

text \<open>
  Physics engine. Two quotients can have a zero divisor. With \<^verbatim>\<open>deceleration\<close> zero the
  braking distance is \<^verbatim>\<open>Infinity\<close> for a moving vehicle (the test holds) and not a number
  for a standing one (the test fails). With a zero-length edge the progress is
  \<^verbatim>\<open>Infinity\<close> for a positive \<^verbatim>\<open>newProgressDistance\<close> (clamped to 1, the vehicle arrives)
  and otherwise minus infinity or not a number: the new position is then not a number.
\<close>

text \<open>The speed moves towards the target speed by one step of acceleration or braking.\<close>

definition convergeSpeed :: "real \<Rightarrow> real \<Rightarrow> real \<Rightarrow> real \<Rightarrow> real" where
  "convergeSpeed speed accel decel targetSpeed =
     (if speed < targetSpeed then min (speed + accel) targetSpeed
      else if targetSpeed < speed then max (speed - decel) targetSpeed
      else speed)"

text \<open>Whether the vehicle, on its final edge, is within braking distance of the target.\<close>

definition brakes :: "AGV \<Rightarrow> real \<Rightarrow> bool" where
  "brakes agv distRemaining \<longleftrightarrow>
     length (path agv) = 1
     \<and> (if deceleration agv = 0 then currentSpeed agv \<noteq> 0
        else distRemaining \<le> (currentSpeed agv * currentSpeed agv) / (2 * deceleration agv) + 5)"

text \<open>The record of a vehicle that has arrived at the node \<open>nextNodeObj\<close>.\<close>

definition arrive :: "AGV \<Rightarrow> Node \<Rightarrow> string \<Rightarrow> real \<Rightarrow> real \<Rightarrow> AGV" where
  "arrive agv nextNodeObj nextNodeId angle newSpeed =
     (let remainingPath = tl (path agv);
          hasArrived = (length remainingPath = 0);
          finalReservedNodes = (if hasArrived then [] else take (hardBorrowLength agv) remainingPath)
      in agv\<lparr>agv_x := node_x nextNodeObj, agv_y := node_y nextNodeObj,
              currentNode := nextNodeId, previousNode := Some (currentNode agv),
              path := remainingPath, progressDistance := 0, progress := 0,
              orientation := angle,
              status := (if hasArrived then COMPLETED else MOVING),
              targetNode := (if hasArrived then None else targetNode agv),
              waitTimer := 0, waitReason := None,
              currentSpeed := (if hasArrived then 0 else newSpeed),
              retryCount := 0, pathRank := 0, reservedNodes := finalReservedNodes\<rparr>)"

text \<open>The record of a vehicle that moves on along its edge.\<close>

definition advance :: "AGV \<Rightarrow> real \<Rightarrow> real \<Rightarrow> real \<Rightarrow> real \<Rightarrow> real \<Rightarrow> real \<Rightarrow> AGV" where
  "advance agv newX newY newProgressDistance prog angle newSpeed =
     agv\<lparr>agv_x := newX, agv_y := newY,
          progressDistance := newProgressDistance, progress := prog,
          orientation := angle, status := MOVING, waitTimer := 0, waitReason := None,
          currentSpeed := newSpeed,
          reservedNodes := take (hardBorrowLength agv) (path agv)\<rparr>"

definition physics :: "AGV \<Rightarrow> Node \<Rightarrow> Node \<Rightarrow> string \<Rightarrow> js_failure + AGV" where
  "physics agv currentNodeObj nextNodeObj nextNodeId =
     (let dx = node_x nextNodeObj - node_x currentNodeObj;
          dy = node_y nextNodeObj - node_y currentNodeObj;
          currentEdgeDistance = sqrt (dx * dx + dy * dy);
          distRemaining = currentEdgeDistance - progressDistance agv;
          isFinalEdge = (length (path agv) = 1);
          targetSpeed = (if brakes agv distRemaining then 0 else maxSpeed agv);
          newSpeed = convergeSpeed (currentSpeed agv) (acceleration agv) (deceleration agv) targetSpeed;
          newProgressDistance = progressDistance agv + newSpeed;
          snap = (isFinalEdge \<and> distRemaining < 10 \<and> newSpeed < 0.5);
          arrived = (snap \<or> (if currentEdgeDistance = 0 then 0 < newProgressDistance
                             else 1 \<le> newProgressDistance / currentEdgeDistance));
          angle = atan2 dy dx * (180 / pi)
      in if arrived then Inr (arrive agv nextNodeObj nextNodeId angle newSpeed)
         else if currentEdgeDistance = 0 then Inl NotANumber
         else (let prog = newProgressDistance / currentEdgeDistance in
               Inr (advance agv (node_x currentNodeObj + dx * prog) (node_y currentNodeObj + dy * prog)
                      newProgressDistance prog angle newSpeed)))"

text \<open>Movement logic: everything after the auto-pilot.\<close>

definition movement :: "MapData \<Rightarrow> Graph \<Rightarrow> AGV list \<Rightarrow> nat \<Rightarrow> AGV \<Rightarrow> js_failure + AGV" where
  "movement mapData graph prevAgvs now agv =
     (case targetNode agv of
        None \<Rightarrow> Inr (idle agv)
      | Some tgt \<Rightarrow>
          (case path agv of
             [] \<Rightarrow> Inr (idle agv)
           | nextNodeId # _ \<Rightarrow>
               if tgt = [] then Inr (idle agv)
               else (case (findNode mapData (currentNode agv), findNode mapData nextNodeId) of
                       (Some currentNodeObj, Some nextNodeObj) \<Rightarrow>
                         (let dx = node_x nextNodeObj - node_x currentNodeObj;
                              dy = node_y nextNodeObj - node_y currentNodeObj;
                              currentEdgeDistance = sqrt (dx * dx + dy * dy);
                              currentAgvWithReservation =
                                agv\<lparr>reservedNodes := take (hardBorrowLength agv) (path agv)\<rparr>;
                              res = checkTrafficRules currentAgvWithReservation prevAgvs
                                      currentNodeObj nextNodeObj
                          in if action res = REPATH_HEAD_ON
                             then repathHeadOn graph now agv tgt nextNodeId currentEdgeDistance (avoidData res)
                             else if action res = WAIT
                             then waitBranch graph prevAgvs agv tgt nextNodeId currentEdgeDistance
                                    (conflictReason res) (blockerId res)
                             else physics agv currentNodeObj nextNodeObj nextNodeId)
                     | _ \<Rightarrow> Inr agv)))"

definition updateAgv :: "MapData \<Rightarrow> Graph \<Rightarrow> bool \<Rightarrow> AGV list \<Rightarrow> real \<Rightarrow> real \<Rightarrow> nat \<Rightarrow> AGV
    \<Rightarrow> js_failure + AGV" where
  "updateAgv mapData graph randomMoveMode prevAgvs r1 r2 now agv =
     (case autoPilot mapData graph randomMoveMode prevAgvs r1 r2 now agv of
        Some r \<Rightarrow> r
      | None \<Rightarrow> movement mapData graph prevAgvs now agv)"

text \<open>
  The tick over the fleet: every vehicle is updated against the fleet of the previous
  tick. \<open>amb i\<close> gives the ambient values (two random numbers and the clock) delivered
  to the calls made for the vehicle at position \<open>i\<close>.
\<close>

fun updateAll :: "MapData \<Rightarrow> Graph \<Rightarrow> bool \<Rightarrow> AGV list \<Rightarrow> (nat \<Rightarrow> real \<times> real \<times> nat) \<Rightarrow> nat
    \<Rightarrow> AGV list \<Rightarrow> js_failure + AGV list" where
  "updateAll mapData graph randomMoveMode prevAgvs amb i [] = Inr []"
| "updateAll mapData graph randomMoveMode prevAgvs amb i (agv # rest) =
     (case updateAgv mapData graph randomMoveMode prevAgvs (fst (amb i)) (fst (snd (amb i)))
             (snd (snd (amb i))) agv of
        Inl e \<Rightarrow> Inl e
      | Inr agv' \<Rightarrow>
          (case updateAll mapData graph randomMoveMode prevAgvs amb (Suc i) rest of
             Inl e \<Rightarrow> Inl e
           | Inr rest' \<Rightarrow> Inr (agv' # rest')))"

definition updateSimulation :: "bool \<Rightarrow> MapData \<Rightarrow> Graph \<Rightarrow> bool \<Rightarrow> (nat \<Rightarrow> real \<times> real \<times> nat)
    \<Rightarrow> AGV list \<Rightarrow> js_failure + AGV list" where
  "updateSimulation isPlaying mapData graph randomMoveMode amb prevAgvs =
     (if \<not> isPlaying then Inr prevAgvs
      else updateAll mapData graph randomMoveMode prevAgvs amb 0 prevAgvs)"

text \<open>
  Consecutive ticks seen from one vehicle: each tick comes with the fleet snapshot it
  reads and the ambient values delivered to this vehicle.
\<close>

fun ticks :: "MapData \<Rightarrow> Graph \<Rightarrow> bool \<Rightarrow> (AGV list \<times> real \<times> real \<times> nat) list \<Rightarrow> AGV
    \<Rightarrow> js_failure + AGV" where
  "ticks mapData graph randomMoveMode [] agv = Inr agv"
| "ticks mapData graph randomMoveMode (env # rest) agv =
     (case updateAgv mapData graph randomMoveMode (fst env) (fst (snd env)) (fst (snd (snd env)))
             (snd (snd (snd env))) agv of
        Inl e \<Rightarrow> Inl e
      | Inr agv' \<Rightarrow> ticks mapData graph randomMoveMode rest agv')"

text \<open>The length of the edge between two nodes of the map, \<open>None\<close> when a node is missing.\<close>

definition edgeLength :: "MapData \<Rightarrow> string \<Rightarrow> string \<Rightarrow> real option" where
  "edgeLength mapData a b =
     (case (findNode mapData a, findNode mapData b) of
        (Some na, Some nb) \<Rightarrow>
          (let dx = node_x nb - node_x na; dy = node_y nb - node_y na
           in Some (sqrt (dx * dx + dy * dy)))
      | _ \<Rightarrow> None)"

subsection \<open>Setting a target (single-file version)\<close>

text \<open>
  The vehicle is mid-edge when it has a path and a positive progress. The search then
  starts at the node it is driving to (\<^verbatim>\<open>searchStartNode\<close>), and that node stays at the
  front of its path (\<^verbatim>\<open>pathPrefix\<close>); otherwise the search starts at the vehicle's node
  and the prefix is empty.
\<close>

definition midEdge :: "AGV \<Rightarrow> bool" where
  "midEdge agv \<longleftrightarrow> 0 < length (path agv) \<and> 0 < progress agv"

definition searchStartNode :: "AGV \<Rightarrow> string" where
  "searchStartNode agv = (if midEdge agv then hd (path agv) else currentNode agv)"

definition pathPrefix :: "AGV \<Rightarrow> string list" where
  "pathPrefix agv = (if midEdge agv then [hd (path agv)] else [])"

definition setTarget :: "Graph \<Rightarrow> string \<Rightarrow> AGV \<Rightarrow> js_failure + AGV" where
  "setTarget graph nodeId agv =
     (case findPathJsx (searchStartNode agv) nodeId graph [] [] of
        Inl e \<Rightarrow> Inl e
      | Inr newRoute \<Rightarrow>
          (let fullPath = pathPrefix agv @ newRoute;
               newReservedNodes = take (hardBorrowLength agv) fullPath
           in Inr (agv\<lparr>targetNode := Some nodeId, path := fullPath, status := PLANNING,
                        waitTimer := 0, waitReason := None, retryCount := 0, pathRank := 0,
                        reservedNodes := newReservedNodes\<rparr>)))"

fun setTargetAll :: "nat \<Rightarrow> Graph \<Rightarrow> string \<Rightarrow> AGV list \<Rightarrow> js_failure + AGV list" where
  "setTargetAll sel graph nodeId [] = Inr []"
| "setTargetAll sel graph nodeId (agv # rest) =
     (case (if agv_id agv \<noteq> sel then Inr agv else setTarget graph nodeId agv) of
        Inl e \<Rightarrow> Inl e
      | Inr agv' \<Rightarrow>
          (case setTargetAll sel graph nodeId rest of
             Inl e \<Rightarrow> Inl e
           | Inr rest' \<Rightarrow> Inr (agv' # rest')))"

text \<open>
  \<^verbatim>\<open>handleNodeClick\<close>: nothing happens without a selected vehicle (\<^verbatim>\<open>null\<close> and \<open>0\<close> are
  falsy); otherwise the fleet is updated and the simulation set playing. The result is
  the new fleet and the new value of \<^verbatim>\<open>isPlaying\<close>.
\<close>

definition handleNodeClick :: "nat option \<Rightarrow> Graph \<Rightarrow> bool \<Rightarrow> string \<Rightarrow> AGV list
    \<Rightarrow> js_failure + AGV list \<times> bool" where
  "handleNodeClick selectedAgvId graph isPlaying nodeId agvs =
     (case selectedAgvId of
        None \<Rightarrow> Inr (agvs, isPlaying)
      | Some sel \<Rightarrow>
          if sel = 0 then Inr (agvs, isPlaying)
          else (case setTargetAll sel graph nodeId agvs of
                  Inl e \<Rightarrow> Inl e
                | Inr agvs' \<Rightarrow> Inr (agvs', True)))"

section \<open>Arbitration order, stated declaratively\<close>

datatype Rule = R1 | R2a | R2b | R3 | R4 | R5

definition ruleOrder :: "Rule list" where
  "ruleOrder = [R1, R2a, R2b, R3, R4, R5]"

fun fires :: "Rule \<Rightarrow> AGV \<Rightarrow> AGV \<Rightarrow> Node \<Rightarrow> Node \<Rightarrow> bool" where
  "fires R1 ego other cn nn = headOn ego other"
| "fires R2a ego other cn nn = destOccupied ego other"
| "fires R2b ego other cn nn = entryContention ego other nn"
| "fires R3 ego other cn nn = nodeOccupied ego other cn"
| "fires R4 ego other cn nn = mergeYield ego other nn"
| "fires R5 ego other cn nn = frontSensor ego other cn nn"

fun ruleVerdict :: "Rule \<Rightarrow> AGV \<Rightarrow> AGV \<Rightarrow> TrafficCheckResult" where
  "ruleVerdict R1 ego other =
     verdict REPATH_HEAD_ON (''Head-on w/ AGV-'' @ sliceLast4 (natToString (agv_id other)))
       (Some (currentNode ego, showNode (pathHead (path ego)))) (agv_id other)"
| "ruleVerdict R2a ego other =
     verdict WAIT (''Dest '' @ showNode (pathHead (path ego)) @ '' Occupied'') None (agv_id other)"
| "ruleVerdict R2b ego other =
     verdict WAIT (''Yield Entry to '' @ showNode (pathHead (path ego)) @ '' (Queue)'') None (agv_id other)"
| "ruleVerdict R3 ego other =
     verdict WAIT (''Waiting Node '' @ showNode (pathHead (path ego))) None (agv_id other)"
| "ruleVerdict R4 ego other = verdict WAIT ''Merge Yield'' None (agv_id other)"
| "ruleVerdict R5 ego other = verdict WAIT ''Front Sensor: Stop'' None (agv_id other)"

text \<open>
  The verdict for a list of candidate (rule, vehicle) pairs: the reservation block R0
  comes first, then the first candidate decides, and without a candidate the vehicle moves.
\<close>

definition firstFiring :: "(Rule \<times> AGV) list \<Rightarrow> AGV \<Rightarrow> AGV list \<Rightarrow> TrafficCheckResult" where
  "firstFiring cands ego allAgvs =
     (case reservingAgv ego allAgvs of
        Some r \<Rightarrow> verdict WAIT (''Node '' @ showNode (pathHead (path ego)) @ '' Reserved'') None (agv_id r)
      | None \<Rightarrow>
          (case cands of
             [] \<Rightarrow> \<lparr>action = MOVE, conflictReason = None, avoidData = None, blockerId = None\<rparr>
           | (r, other) # _ \<Rightarrow> ruleVerdict r ego other))"

text \<open>
  Rule-major order, as the specification words it: the first rule, in the order R1 to
  R5, that fires against any vehicle of the snapshot.
\<close>

definition arbitrateByRule :: "AGV \<Rightarrow> AGV list \<Rightarrow> Node \<Rightarrow> Node \<Rightarrow> TrafficCheckResult" where
  "arbitrateByRule ego allAgvs cn nn =
     firstFiring [(r, other). r \<leftarrow> ruleOrder, other \<leftarrow> allAgvs,
                    agv_id other \<noteq> agv_id ego \<and> fires r ego other cn nn] ego allAgvs"

text \<open>
  Vehicle-major order: the first vehicle, in snapshot order, against which any rule
  fires, and for that vehicle the first rule in the order R1 to R5.
\<close>

definition arbitrateByAgv :: "AGV \<Rightarrow> AGV list \<Rightarrow> Node \<Rightarrow> Node \<Rightarrow> TrafficCheckResult" where
  "arbitrateByAgv ego allAgvs cn nn =
     firstFiring [(r, other). other \<leftarrow> allAgvs, r \<leftarrow> ruleOrder,
                    agv_id other \<noteq> agv_id ego \<and> fires r ego other cn nn] ego allAgvs"

section \<open>Example data\<close>

definition nodeA :: Node where
  "nodeA = \<lparr>node_id = ''A'', node_x = 0, node_y = 0, node_label = ''Loc A''\<rparr>"

definition nodeB :: Node where
  "nodeB = \<lparr>node_id = ''B'', node_x = 100, node_y = 0, node_label = ''Loc B''\<rparr>"

text \<open>A vehicle as \<open>spawnAgv\<close> creates it, with the default fleet configuration.\<close>

definition parked :: "nat \<Rightarrow> Node \<Rightarrow> AGV" where
  "parked i n = \<lparr>agv_id = i, agv_x = node_x n, agv_y = node_y n,
                 currentNode = node_id n, previousNode = None, targetNode = None,
                 path = [], progress = 0, progressDistance = 0, orientation = 0,
                 status = IDLE, color = 0, waitTimer = 0, waitReason = None,
                 maxSpeed = 14 / 10, acceleration = 1 / 10, deceleration = 15 / 100,
                 safetyDistance = 35, hardBorrowLength = 1,
                 currentSpeed = 0, retryCount = 0, pathRank = 0, reservedNodes = [],
                 pathPlanningTime = i\<rparr>"

definition egoAB :: AGV where
  "egoAB = (parked 1 nodeA)\<lparr>targetNode := Some ''B'', path := [''B''], status := MOVING,
                            reservedNodes := [''B'']\<rparr>"

definition idleAtB :: AGV where
  "idleAtB = parked 2 nodeB"

definition headOnBA :: AGV where
  "headOnBA = (parked 3 nodeB)\<lparr>targetNode := Some ''A'', path := [''A''], status := MOVING,
                               reservedNodes := [''A'']\<rparr>"

definition nodeC :: Node where
  "nodeC = \<lparr>node_id = ''C'', node_x = 200, node_y = 0, node_label = ''Loc C''\<rparr>"

definition nodeD :: Node where
  "nodeD = \<lparr>node_id = ''D'', node_x = 100, node_y = - 100, node_label = ''Loc D''\<rparr>"

definition gn :: "string \<Rightarrow> nat \<Rightarrow> GraphNode" where
  "gn n w = \<lparr>node = n, weight = w\<rparr>"

text \<open>A line A - B and its graph.\<close>

definition mapAB :: MapData where
  "mapAB = \<lparr>nodes = [nodeA, nodeB],
             edges = [\<lparr>source = ''A'', target = ''B'', edge_weight = 100\<rparr>]\<rparr>"

definition graphAB :: Graph where
  "graphAB = [(''A'', [gn ''B'' 100]), (''B'', [gn ''A'' 100])]"

text \<open>A square A - B - C - D - A and its graph.\<close>

definition mapABCD :: MapData where
  "mapABCD = \<lparr>nodes = [nodeA, nodeB, nodeC, nodeD],
     edges = [\<lparr>source = ''A'', target = ''B'', edge_weight = 100\<rparr>,
              \<lparr>source = ''B'', target = ''C'', edge_weight = 100\<rparr>,
              \<lparr>source = ''A'', target = ''D'', edge_weight = 100\<rparr>,
              \<lparr>source = ''D'', target = ''C'', edge_weight = 100\<rparr>]\<rparr>"

definition graphABCD :: Graph where
  "graphABCD = [(''A'', [gn ''B'' 100, gn ''D'' 100]), (''B'', [gn ''A'' 100, gn ''C'' 100]),
                (''C'', [gn ''B'' 100, gn ''D'' 100]), (''D'', [gn ''A'' 100, gn ''C'' 100])]"

text \<open>A vehicle half way from A to B at full speed, bound for C.\<close>

definition egoMid :: AGV where
  "egoMid = (parked 1 nodeA)\<lparr>agv_x := 50, targetNode := Some ''C'', path := [''B'', ''C''],
      progress := 1 / 2, progressDistance := 50, status := MOVING, currentSpeed := 14 / 10,
      reservedNodes := [''B'']\<rparr>"

text \<open>A vehicle at A that has waited 60 ticks and retried twice for the occupied node B.\<close>

definition egoWaiting :: AGV where
  "egoWaiting = egoAB\<lparr>status := WAITING, waitTimer := 60, retryCount := 2,
     waitReason := Some ''Dest B Occupied''\<rparr>"

text \<open>A vehicle about to arrive at its target B, and the same vehicle after its arrival.\<close>

definition arriving :: AGV where
  "arriving = (parked 1 nodeA)\<lparr>agv_x := 999 / 10, targetNode := Some ''B'', path := [''B''],
      progress := 999 / 1000, progressDistance := 999 / 10, status := MOVING,
      currentSpeed := 1 / 10, reservedNodes := [''B'']\<rparr>"

definition completedAtB :: AGV where
  "completedAtB = (parked 1 nodeB)\<lparr>previousNode := Some ''A'', status := COMPLETED\<rparr>"



definition graphABc :: Graph where
  "graphABc = [(''A'', [gn ''B'' 100]), (''B'', [gn ''A'' 100]), (''C'', [])]"

definition mapABc :: MapData where
  "mapABc = \<lparr>nodes = [nodeA, nodeB, nodeC],
              edges = [\<lparr>source = ''A'', target = ''B'', edge_weight = 100\<rparr>]\<rparr>"

definition idleAtA :: AGV where
  "idleAtA = parked 1 nodeA"

definition planningC :: AGV where
  "planningC = idleAtA\<lparr>targetNode := Some ''C'', status := PLANNING\<rparr>"

text \<open>The vehicle about to arrive at B, after it has been sent to the isolated node C.\<close>

definition redirected :: AGV where
  "redirected = arriving\<lparr>targetNode := Some ''C'', status := PLANNING\<rparr>"

definition defaultFleetConfig :: FleetConfig where
  "defaultFleetConfig = \<lparr>cfg_maxSpeed = 14 / 10, cfg_acceleration = 1 / 10,
     cfg_deceleration = 15 / 100, cfg_safetyDistance = 35, cfg_hardBorrowLength = 1\<rparr>"

definition emptyMap :: MapData where
  "emptyMap = \<lparr>nodes = [], edges = []\<rparr>"


section \<open>The traffic arbiter\<close>

lemma frontSensor_rest: "currentSpeed ego = 0 \<Longrightarrow> \<not> frontSensor ego other cn nn"
  by (simp add: frontSensor_def Let_def euclid_def)

lemma checkOther_reason:
  "currentSpeed ego = 0 \<Longrightarrow> checkOther ego other cn nn = Some r
   \<Longrightarrow> conflictReason r \<noteq> Some ''Front Sensor: Stop''"
  by (auto simp: checkOther_def Let_def verdict_def frontSensor_rest split: if_splits)

lemma scan_reason:
  "currentSpeed ego = 0 \<Longrightarrow> conflictReason (scanAgvs ego all cn nn) \<noteq> Some ''Front Sensor: Stop''"
  by (induction all) (auto simp: checkOther_reason split: option.splits)

text \<open>
  C10: for an ego vehicle with \<open>currentSpeed = 0\<close> and any fleet snapshot, the front
  sensor rule R5 never fires: the predicted position is the present one, so the future
  distance is not smaller than the present distance, whatever the other vehicle. The
  verdict of the arbiter is then never the front sensor's WAIT.
\<close>

theorem front_sensor_silent_at_rest:
  assumes "currentSpeed ego = 0"
  shows "\<not> frontSensor ego other cn nn
       \<and> conflictReason (checkTrafficRules ego allAgvs cn nn) \<noteq> Some ''Front Sensor: Stop''"
  using assms
  by (auto simp: frontSensor_rest scan_reason checkTrafficRules_def verdict_def split: option.splits)

theorem front_sensor_silent_at_rest_witness:
  "currentSpeed egoAB = 0 \<and> \<not> frontSensor egoAB idleAtB nodeA nodeB
   \<and> conflictReason (checkTrafficRules egoAB [egoAB, idleAtB] nodeA nodeB) \<noteq> Some ''Front Sensor: Stop''"
  using front_sensor_silent_at_rest [of egoAB idleAtB nodeA nodeB "[egoAB, idleAtB]"]
  by (simp add: egoAB_def parked_def)

lemma checkOther_first:
  "checkOther ego other cn nn =
     (case [r. r \<leftarrow> ruleOrder, fires r ego other cn nn] of
        [] \<Rightarrow> None
      | r # _ \<Rightarrow> Some (ruleVerdict r ego other))"
  by (simp add: checkOther_def ruleOrder_def Let_def)

lemma scan_first:
  "scanAgvs ego allAgvs cn nn =
     (case [(r, other). other \<leftarrow> allAgvs, r \<leftarrow> ruleOrder,
              agv_id other \<noteq> agv_id ego \<and> fires r ego other cn nn] of
        [] \<Rightarrow> \<lparr>action = MOVE, conflictReason = None, avoidData = None, blockerId = None\<rparr>
      | (r, other) # _ \<Rightarrow> ruleVerdict r ego other)"
proof (induction allAgvs)
  case Nil
  show ?case by simp
next
  case (Cons o1 rest)
  show ?case
  proof (cases "agv_id o1 = agv_id ego")
    case True
    then show ?thesis using Cons.IH by (simp add: ruleOrder_def)
  next
    case False
    have e: "[(r, other). other \<leftarrow> o1 # rest, r \<leftarrow> ruleOrder,
                agv_id other \<noteq> agv_id ego \<and> fires r ego other cn nn]
        = map (\<lambda>r. (r, o1)) [r. r \<leftarrow> ruleOrder, fires r ego o1 cn nn]
          @ [(r, other). other \<leftarrow> rest, r \<leftarrow> ruleOrder,
               agv_id other \<noteq> agv_id ego \<and> fires r ego other cn nn]"
      using False by (simp add: ruleOrder_def)
    show ?thesis
    proof (cases "[r. r \<leftarrow> ruleOrder, fires r ego o1 cn nn]")
      case Nil
      then show ?thesis
        using False Cons.IH by (simp only: e scanAgvs.simps checkOther_first) simp
    next
      case (Cons r rs)
      then show ?thesis
        using False by (simp only: e scanAgvs.simps checkOther_first) simp
    qed
  qed
qed

text \<open>
  C2, as the code has it: the reservation block R0 is tried first against the whole
  snapshot; after that the other vehicles are visited in snapshot order and for each
  one the rules R1, R2a, R2b, R3, R4, R5 are tried in this order; the verdict is that of
  the first (vehicle, rule) pair that fires, and MOVE when none does. A head-on (R1)
  therefore wins over the later rules for the same vehicle, and over another vehicle
  only when that vehicle comes later in the snapshot.
\<close>

theorem arbitration_is_vehicle_major:
  "checkTrafficRules ego allAgvs cn nn = arbitrateByAgv ego allAgvs cn nn"
  by (simp add: checkTrafficRules_def arbitrateByAgv_def firstFiring_def scan_first
      split: option.splits)

text \<open>
  C2, counterexample: the rule-major reading fails; a stationary vehicle at B comes first in the snapshot
  and triggers R2a, a later vehicle triggers R1, and the verdict is R2a's WAIT.
\<close>

theorem arbitration_rule_major_counterexample:
  "agv_id headOnBA \<noteq> agv_id egoAB \<and> headOn egoAB headOnBA
   \<and> reservingAgv egoAB [egoAB, idleAtB, headOnBA] = None
   \<and> action (arbitrateByRule egoAB [egoAB, idleAtB, headOnBA] nodeA nodeB) = REPATH_HEAD_ON
   \<and> checkTrafficRules egoAB [egoAB, idleAtB, headOnBA] nodeA nodeB
       = verdict WAIT ''Dest B Occupied'' None 2"
  by (simp add: egoAB_def idleAtB_def headOnBA_def parked_def nodeA_def nodeB_def headOn_def
      pathHead_def reservingAgv_def checkTrafficRules_def checkOther_def destOccupied_def
      showNode_def arbitrateByRule_def firstFiring_def ruleOrder_def verdict_def)

section \<open>The pathfinder\<close>

lemma distKey_Some: "d k = Some x \<Longrightarrow> distKey d k = x"
  by (simp add: distKey_def)

lemma relax_cases:
  assumes "fst dp u = Some du"
  shows "relax an ae u nb dp =
     (if stepOk an ae u nb \<and> fst dp (node nb) \<noteq> None \<and> du + enat (weight nb) < distKey (fst dp) (node nb)
      then ((fst dp)(node nb \<mapsto> du + enat (weight nb)), (snd dp)(node nb \<mapsto> Some u))
      else dp)"
  using assms by (auto simp: relax_def stepOk_def Let_def distKey_def split: option.splits)

lemma relax_keeps_u:
  assumes "fst dp u = Some du"
  shows "fst (relax an ae u nb dp) u = Some du"
proof (cases "node nb = u")
  case True
  have "\<not> du + enat (weight nb) < du"
    by (simp add: not_less)
  then show ?thesis using assms True by (simp add: relax_cases [OF assms] distKey_def)
next
  case False
  then show ?thesis using assms by (simp add: relax_cases [OF assms])
qed

text \<open>What the loop over the neighbours of u leaves behind.\<close>

lemma fold_relax:
  assumes "fst dp u = Some du"
  shows "fst (fold (relax an ae u) ns dp) u = Some du
    \<and> (\<forall>v. (fst (fold (relax an ae u) ns dp) v = None) = (fst dp v = None))
    \<and> (\<forall>v. distKey (fst (fold (relax an ae u) ns dp)) v \<le> distKey (fst dp) v)
    \<and> (\<forall>nb \<in> set ns. stepOk an ae u nb \<longrightarrow> fst dp (node nb) \<noteq> None
          \<longrightarrow> distKey (fst (fold (relax an ae u) ns dp)) (node nb) \<le> du + enat (weight nb))
    \<and> (\<forall>v. (fst (fold (relax an ae u) ns dp) v = fst dp v \<and> snd (fold (relax an ae u) ns dp) v = snd dp v)
          \<or> (snd (fold (relax an ae u) ns dp) v = Some (Some u)
             \<and> distKey (fst (fold (relax an ae u) ns dp)) v < distKey (fst dp) v
             \<and> (\<exists>nb \<in> set ns. stepOk an ae u nb \<and> node nb = v
                   \<and> fst (fold (relax an ae u) ns dp) v = Some (du + enat (weight nb)))))"
  using assms
proof (induction ns arbitrary: dp)
  case Nil
  then show ?case by simp
next
  case (Cons nb ns)
  let ?dp1 = "relax an ae u nb dp"
  let ?dp2 = "fold (relax an ae u) ns ?dp1"
  have u1: "fst ?dp1 u = Some du" using Cons.prems by (rule relax_keeps_u)
  note IH = Cons.IH [OF u1]
  note ih_u = IH [THEN conjunct1]
  note ih_dom = IH [THEN conjunct2, THEN conjunct1, rule_format]
  note ih_le = IH [THEN conjunct2, THEN conjunct2, THEN conjunct1, rule_format]
  note ih_nb = IH [THEN conjunct2, THEN conjunct2, THEN conjunct2, THEN conjunct1, rule_format]
  note ih_ch = IH [THEN conjunct2, THEN conjunct2, THEN conjunct2, THEN conjunct2, rule_format]
  note rc = relax_cases [OF Cons.prems, of an ae nb]
  have dom1: "\<And>v. (fst ?dp1 v = None) = (fst dp v = None)"
    by (simp add: rc)
  have le1: "\<And>v. distKey (fst ?dp1) v \<le> distKey (fst dp) v"
    by (auto simp: rc distKey_def split: option.splits)
  have nb1: "stepOk an ae u nb \<Longrightarrow> fst dp (node nb) \<noteq> None
      \<Longrightarrow> distKey (fst ?dp1) (node nb) \<le> du + enat (weight nb)"
    by (auto simp: rc not_less distKey_def)
  have ch1: "\<And>v. (fst ?dp1 v = fst dp v \<and> snd ?dp1 v = snd dp v)
      \<or> (snd ?dp1 v = Some (Some u) \<and> distKey (fst ?dp1) v < distKey (fst dp) v
          \<and> stepOk an ae u nb \<and> node nb = v \<and> fst ?dp1 v = Some (du + enat (weight nb)))"
    by (auto simp: rc distKey_def)
  have f: "fold (relax an ae u) (nb # ns) dp = ?dp2" by simp
  show ?case unfolding f
  proof (intro conjI allI ballI impI)
    show "fst ?dp2 u = Some du" by (rule ih_u)
  next
    fix v show "(fst ?dp2 v = None) = (fst dp v = None)" using ih_dom [of v] dom1 [of v] by simp
  next
    fix v
    have "distKey (fst ?dp2) v \<le> distKey (fst ?dp1) v" by (rule ih_le)
    then show "distKey (fst ?dp2) v \<le> distKey (fst dp) v" using le1 [of v] by (rule order_trans)
  next
    fix x assume x: "x \<in> set (nb # ns)" "stepOk an ae u x" "fst dp (node x) \<noteq> None"
    have mono: "distKey (fst ?dp2) (node x) \<le> distKey (fst ?dp1) (node x)" by (rule ih_le)
    have def1: "fst ?dp1 (node x) \<noteq> None" using x(3) dom1 [of "node x"] by simp
    show "distKey (fst ?dp2) (node x) \<le> du + enat (weight x)"
    proof (cases "x \<in> set ns")
      case True
      then show ?thesis using x(2) def1 by (rule ih_nb)
    next
      case False
      then have "x = nb" using x(1) by simp
      then have "distKey (fst ?dp1) (node x) \<le> du + enat (weight x)" using nb1 x(2,3) by simp
      with mono show ?thesis by (rule order_trans)
    qed
  next
    fix v
    from ih_ch [of v] have c2: "(fst ?dp2 v = fst ?dp1 v \<and> snd ?dp2 v = snd ?dp1 v)
          \<or> (snd ?dp2 v = Some (Some u)
             \<and> distKey (fst ?dp2) v < distKey (fst ?dp1) v
             \<and> (\<exists>nb \<in> set ns. stepOk an ae u nb \<and> node nb = v
                   \<and> fst ?dp2 v = Some (du + enat (weight nb))))"
      .
    show "(fst ?dp2 v = fst dp v \<and> snd ?dp2 v = snd dp v)
          \<or> (snd ?dp2 v = Some (Some u)
             \<and> distKey (fst ?dp2) v < distKey (fst dp) v
             \<and> (\<exists>nb \<in> set (nb # ns). stepOk an ae u nb \<and> node nb = v
                   \<and> fst ?dp2 v = Some (du + enat (weight nb))))"
      using c2
    proof
      assume same2: "fst ?dp2 v = fst ?dp1 v \<and> snd ?dp2 v = snd ?dp1 v"
      from ch1 [of v] show ?thesis
      proof
        assume "fst ?dp1 v = fst dp v \<and> snd ?dp1 v = snd dp v"
        then show ?thesis using same2 by simp
      next
        assume "snd ?dp1 v = Some (Some u) \<and> distKey (fst ?dp1) v < distKey (fst dp) v
          \<and> stepOk an ae u nb \<and> node nb = v \<and> fst ?dp1 v = Some (du + enat (weight nb))"
        then show ?thesis using same2 by (auto simp: distKey_def)
      qed
    next
      assume ch2: "snd ?dp2 v = Some (Some u)
             \<and> distKey (fst ?dp2) v < distKey (fst ?dp1) v
             \<and> (\<exists>nb \<in> set ns. stepOk an ae u nb \<and> node nb = v
                   \<and> fst ?dp2 v = Some (du + enat (weight nb)))"
      then have "distKey (fst ?dp2) v < distKey (fst dp) v"
        using le1 [of v] by (blast intro: less_le_trans)
      then show ?thesis using ch2 by auto
    qed
  qed
qed


subsection \<open>Routes\<close>

lemma route_append:
  "route g an ae u (xs @ ys) = (route g an ae u xs \<and> route g an ae (routeEnd u xs) ys)"
  by (induction xs arbitrary: u) (auto simp: routeEnd_def)

lemma routeEnd_snoc [simp]: "routeEnd u (xs @ [nb]) = node nb"
  by (simp add: routeEnd_def)

lemma routeEnd_Nil [simp]: "routeEnd u [] = u"
  by (simp add: routeEnd_def)

lemma cost_snoc [simp]: "cost (xs @ [nb]) = cost xs + weight nb"
  by (simp add: cost_def)

lemma cost_Nil [simp]: "cost [] = 0"
  by (simp add: cost_def)

lemma route_snoc:
  "route g an ae u (xs @ [nb]) = (route g an ae u xs \<and> allowedStep g an ae (routeEnd u xs) nb)"
  by (simp add: route_append)

lemma allowedStep_key: "allowedStep g an ae u nb \<Longrightarrow> u \<in> graphKeys g"
  by (force simp: allowedStep_def graphKeys_def split: option.splits dest: map_of_SomeD)

lemma allowedStep_iff:
  "map_of g u = Some ns \<Longrightarrow> allowedStep g an ae u nb = (nb \<in> set ns \<and> stepOk an ae u nb)"
  by (simp add: allowedStep_def stepOk_def)

lemma allowedStep_positive:
  assumes "wellFormedGraph g" "allowedStep g an ae u nb"
  shows "0 < weight nb"
proof -
  from assms(2) obtain ns where ns: "map_of g u = Some ns" "nb \<in> set ns"
    by (auto simp: allowedStep_def split: option.splits)
  then have "(u, ns) \<in> set g" by (simp add: map_of_SomeD)
  then show ?thesis using assms(1) ns(2)
    by (auto simp: wellFormedGraph_def list_all_iff)
qed

lemma key_lookup: "u \<in> graphKeys g \<Longrightarrow> \<exists>ns. map_of g u = Some ns"
  by (metis graphKeys_def map_of_eq_None_iff not_Some_eq set_map)

subsection \<open>The frontier\<close>

lemma invD:
  assumes "dijkstraInv g an ae s dp q"
  shows "distinct q" "set q \<subseteq> graphKeys g"
    "\<forall>k \<in> graphKeys g. fst dp k \<noteq> None"
    "fst dp s = Some 0"
    "\<forall>v \<in> graphKeys g - set q. \<forall>steps. routeTo g an ae s v steps
            \<longrightarrow> distKey (fst dp) v \<le> enat (cost steps)"
    "\<forall>x \<in> graphKeys g - set q. distKey (fst dp) x < \<infinity>
            \<and> (\<forall>y \<in> set q. distKey (fst dp) x \<le> distKey (fst dp) y)"
    "\<forall>x \<in> graphKeys g - set q. \<forall>nb. allowedStep g an ae x nb \<longrightarrow> node nb \<in> graphKeys g
            \<longrightarrow> distKey (fst dp) (node nb) \<le> distKey (fst dp) x + enat (weight nb)"
    "\<forall>v \<in> graphKeys g. predOk g an ae s (fst dp) (snd dp) (graphKeys g - set q) v"
  using assms unfolding dijkstraInv_def by blast+


lemma frontier:
  assumes inv: "dijkstraInv g an ae s dp q"
    and r: "route g an ae s steps" and e: "routeEnd s steps \<in> set q"
  shows "\<exists>y \<in> set q. distKey (fst dp) y \<le> enat (cost steps)"
  using r e
proof (induction steps rule: rev_induct)
  case Nil
  then have "s \<in> set q" by simp
  moreover have "distKey (fst dp) s = 0" using invD(4) [OF inv] by (simp add: distKey_def)
  ultimately show ?case by (intro bexI [of _ s]) simp_all
next
  case (snoc nb steps)
  let ?e = "routeEnd s steps"
  from snoc.prems(1) have r1: "route g an ae s steps" and st: "allowedStep g an ae ?e nb"
    by (simp_all add: route_snoc)
  from snoc.prems(2) have nq: "node nb \<in> set q" by simp
  have ek: "?e \<in> graphKeys g" using st by (rule allowedStep_key)
  show ?case
  proof (cases "?e \<in> set q")
    case True
    from snoc.IH [OF r1 True] obtain y where "y \<in> set q" "distKey (fst dp) y \<le> enat (cost steps)"
      by blast
    moreover have "enat (cost steps) \<le> enat (cost (steps @ [nb]))" by simp
    ultimately show ?thesis by (blast intro: order_trans)
  next
    case False
    then have se: "?e \<in> graphKeys g - set q" using ek by simp
    have "routeTo g an ae s ?e steps" using r1 by (simp add: routeTo_def)
    then have lb: "distKey (fst dp) ?e \<le> enat (cost steps)"
      using invD(5) [OF inv, rule_format, OF se] by simp
    have nk: "node nb \<in> graphKeys g" using invD(2) [OF inv] nq by auto
    have "distKey (fst dp) (node nb) \<le> distKey (fst dp) ?e + enat (weight nb)"
      using invD(7) [OF inv, rule_format, OF se st nk] .
    also have "\<dots> \<le> enat (cost steps) + enat (weight nb)"
      using lb by (rule add_right_mono)
    finally have "distKey (fst dp) (node nb) \<le> enat (cost (steps @ [nb]))" by simp
    then show ?thesis using nq by blast
  qed
qed

lemma sort_key_head:
  assumes "sort_key f q = u # rest"
  shows "set q = insert u (set rest)" "\<forall>y \<in> set q. f u \<le> f y"
    "distinct q \<Longrightarrow> u \<notin> set rest \<and> distinct rest"
proof -
  show a: "set q = insert u (set rest)"
    using set_sort [of f q] assms by simp
  have "sorted (map f (u # rest))" using sorted_sort_key [of f q] assms by simp
  then have "\<forall>y \<in> set rest. f u \<le> f y" by simp
  then show "\<forall>y \<in> set q. f u \<le> f y" using a by simp
  assume "distinct q"
  then have "distinct (u # rest)" using distinct_sort [of f q] assms by simp
  then show "u \<notin> set rest \<and> distinct rest" by simp
qed

lemma predOk_mono: "predOk g an ae s d p S v \<Longrightarrow> S \<subseteq> S' \<Longrightarrow> predOk g an ae s d p S' v"
  by (auto simp: predOk_def split: option.splits)

lemma inv_exit:
  assumes inv: "dijkstraInv g an ae s dp q"
    and stop: "q = [] \<or> (\<exists>u \<in> set q. (\<forall>y \<in> set q. distKey (fst dp) u \<le> distKey (fst dp) y)
                    \<and> (u = t \<or> distKey (fst dp) u = \<infinity>))"
    and t: "t \<in> graphKeys g"
  shows "dijkstraPost g an ae s t dp"
proof -
  have p1: "fst dp s = Some 0" by (rule invD(4) [OF inv])
  have p2: "\<forall>v \<in> graphKeys g. predOk g an ae s (fst dp) (snd dp) (graphKeys g) v"
  proof
    fix v assume "v \<in> graphKeys g"
    then have "predOk g an ae s (fst dp) (snd dp) (graphKeys g - set q) v"
      using invD(8) [OF inv] by simp
    then show "predOk g an ae s (fst dp) (snd dp) (graphKeys g) v"
      by (rule predOk_mono) auto
  qed
  have p3: "distKey (fst dp) t \<le> enat (cost steps)" if r: "routeTo g an ae s t steps" for steps
  proof (cases "t \<in> set q")
    case False
    then have "t \<in> graphKeys g - set q" using t by simp
    from invD(5) [OF inv, rule_format, OF this r] show ?thesis .
  next
    case True
    then have "q \<noteq> []" by auto
    with stop obtain u where u: "u \<in> set q" "\<forall>y \<in> set q. distKey (fst dp) u \<le> distKey (fst dp) y"
      "u = t \<or> distKey (fst dp) u = \<infinity>" by blast
    from r have "route g an ae s steps" "routeEnd s steps \<in> set q"
      using True by (simp_all add: routeTo_def)
    from frontier [OF inv this] obtain y where y: "y \<in> set q" "distKey (fst dp) y \<le> enat (cost steps)"
      by blast
    have uy: "distKey (fst dp) u \<le> enat (cost steps)"
      using u(2) y by (blast intro: order_trans)
    from u(3) show ?thesis
    proof
      assume "u = t" then show ?thesis using uy by simp
    next
      assume "distKey (fst dp) u = \<infinity>" then show ?thesis using uy by simp
    qed
  qed
  show ?thesis using p1 p2 p3 by (simp add: dijkstraPost_def)
qed


lemma distKey_cong: "d' v = d v \<Longrightarrow> distKey d' v = distKey d v"
  by (simp add: distKey_def)

lemma inv_step:
  assumes inv: "dijkstraInv g an ae s dp q"
    and srt: "sort_key (distKey (fst dp)) q = u # rest"
    and fin: "fst dp u \<noteq> Some \<infinity>"
    and ns: "map_of g u = Some ns"
  shows "dijkstraInv g an ae s (fold (relax an ae u) ns dp) rest"
proof -
  let ?K = "graphKeys g"
  let ?d = "fst dp" and ?p = "snd dp"
  let ?dp' = "fold (relax an ae u) ns dp"
  let ?d' = "fst ?dp'" and ?p' = "snd ?dp'"
  note I = invD [OF inv]
  note dq = I(1) and qK = I(2) and dom = I(3) [rule_format] and ds = I(4)
    and I4 = I(5) [rule_format] and I5a = I(6) [rule_format, THEN conjunct1]
    and I5b = I(6) [rule_format, THEN conjunct2, rule_format]
    and I6 = I(7) [rule_format] and I7 = I(8) [rule_format]
  note hd = sort_key_head [OF srt]
  have sq: "set q = insert u (set rest)" by (rule hd(1))
  have mn: "\<And>y. y \<in> set q \<Longrightarrow> distKey ?d u \<le> distKey ?d y" using hd(2) by blast
  have ur: "u \<notin> set rest" and dr: "distinct rest" using hd(3) [OF dq] by simp_all
  have uq: "u \<in> set q" using sq by simp
  have uK: "u \<in> ?K" using uq qK by blast
  obtain du where du: "?d u = Some du" using dom [OF uK] by blast
  have dku: "distKey ?d u = du" using du by (simp add: distKey_def)
  have dufin: "du < \<infinity>" using fin du by simp
  note F = fold_relax [OF du, of an ae ns]
  note F_u = F [THEN conjunct1]
  note F_dom = F [THEN conjunct2, THEN conjunct1, rule_format]
  note F_le = F [THEN conjunct2, THEN conjunct2, THEN conjunct1, rule_format]
  note F_nb = F [THEN conjunct2, THEN conjunct2, THEN conjunct2, THEN conjunct1, rule_format]
  note F_ch = F [THEN conjunct2, THEN conjunct2, THEN conjunct2, THEN conjunct2, rule_format]
  have dku': "distKey ?d' u = du" using F_u by (simp add: distKey_def)
  have S': "?K - set rest = insert u (?K - set q)" using sq ur uK by auto
  have below: "distKey ?d x \<le> du" if "x \<in> insert u (?K - set q)" for x
  proof (cases "x = u")
    case True then show ?thesis using dku by simp
  next
    case False
    then have "x \<in> ?K - set q" using that by simp
    from I5b [OF this uq] show ?thesis using dku by simp
  qed
  have changed_above: "du \<le> distKey ?d' v"
    if "\<exists>nb \<in> set ns. stepOk an ae u nb \<and> node nb = v \<and> ?d' v = Some (du + enat (weight nb))" for v
  proof -
    from that obtain nb where "nb \<in> set ns"
      "stepOk an ae u nb \<and> node nb = v \<and> ?d' v = Some (du + enat (weight nb))" ..
    then have "distKey ?d' v = du + enat (weight nb)" by (simp add: distKey_def)
    then show ?thesis by simp
  qed
  have keep: "?d' x = ?d x \<and> ?p' x = ?p x" if x: "x \<in> insert u (?K - set q)" for x
    using F_ch [of x]
  proof
    assume "?d' x = ?d x \<and> ?p' x = ?p x" then show ?thesis .
  next
    assume c: "?p' x = Some (Some u) \<and> distKey ?d' x < distKey ?d x
      \<and> (\<exists>nb \<in> set ns. stepOk an ae u nb \<and> node nb = x \<and> ?d' x = Some (du + enat (weight nb)))"
    then have "du \<le> distKey ?d' x" by (intro changed_above) simp
    moreover have "distKey ?d' x < distKey ?d x" using c by simp
    ultimately have "du < distKey ?d x" by (rule le_less_trans)
    then show ?thesis using below [OF x] by simp
  qed
  have keepK: "distKey ?d' x = distKey ?d x" if "x \<in> insert u (?K - set q)" for x
    using keep [OF that] by (simp add: distKey_def)
  have s0: "?d' s = Some 0 \<and> ?p' s = ?p s"
    using F_ch [of s]
  proof
    assume "?d' s = ?d s \<and> ?p' s = ?p s" then show ?thesis using ds by simp
  next
    assume "?p' s = Some (Some u) \<and> distKey ?d' s < distKey ?d s
      \<and> (\<exists>nb \<in> set ns. stepOk an ae u nb \<and> node nb = s \<and> ?d' s = Some (du + enat (weight nb)))"
    then have "distKey ?d' s < distKey ?d s" by simp
    then show ?thesis using ds by (simp add: distKey_def)
  qed
  have C1b: "set rest \<subseteq> ?K" using qK sq by auto
  have C2: "\<forall>k \<in> ?K. ?d' k \<noteq> None" using dom F_dom by simp
  have C3: "?d' s = Some 0" using s0 by simp
  have C4: "\<forall>v \<in> ?K - set rest. \<forall>steps. routeTo g an ae s v steps
              \<longrightarrow> distKey ?d' v \<le> enat (cost steps)"
  proof (intro ballI allI impI)
    fix v steps assume v: "v \<in> ?K - set rest" and r: "routeTo g an ae s v steps"
    have v': "v \<in> insert u (?K - set q)" using v S' by simp
    have "distKey ?d v \<le> enat (cost steps)"
    proof (cases "v = u")
      case False
      then have "v \<in> ?K - set q" using v' by simp
      then show ?thesis using r by (rule I4)
    next
      case True
      then have "route g an ae s steps" "routeEnd s steps \<in> set q"
        using r uq by (simp_all add: routeTo_def)
      from frontier [OF inv this] obtain y where "y \<in> set q" "distKey ?d y \<le> enat (cost steps)"
        by blast
      then show ?thesis using mn [of y] True by (blast intro: order_trans)
    qed
    then show "distKey ?d' v \<le> enat (cost steps)" using keepK [OF v'] by simp
  qed
  have C5: "\<forall>x \<in> ?K - set rest. distKey ?d' x < \<infinity> \<and> (\<forall>y \<in> set rest. distKey ?d' x \<le> distKey ?d' y)"
  proof (intro ballI conjI)
    fix x assume "x \<in> ?K - set rest"
    then have x: "x \<in> insert u (?K - set q)" using S' by simp
    have "distKey ?d x \<le> du" by (rule below [OF x])
    then have "distKey ?d x < \<infinity>" using dufin by (rule le_less_trans)
    then show "distKey ?d' x < \<infinity>" using keepK [OF x] by simp
    fix y assume y: "y \<in> set rest"
    then have yq: "y \<in> set q" using sq by simp
    have "distKey ?d x \<le> distKey ?d' y"
      using F_ch [of y]
    proof
      assume "?d' y = ?d y \<and> ?p' y = ?p y"
      then have "distKey ?d' y = distKey ?d y" by (simp add: distKey_def)
      moreover have "distKey ?d x \<le> distKey ?d y"
        using below [OF x] mn [OF yq] dku by simp
      ultimately show ?thesis by simp
    next
      assume "?p' y = Some (Some u) \<and> distKey ?d' y < distKey ?d y
        \<and> (\<exists>nb \<in> set ns. stepOk an ae u nb \<and> node nb = y \<and> ?d' y = Some (du + enat (weight nb)))"
      then have "du \<le> distKey ?d' y" by (intro changed_above) simp
      with below [OF x] show ?thesis by (rule order_trans)
    qed
    then show "distKey ?d' x \<le> distKey ?d' y" using keepK [OF x] by simp
  qed
  have C6: "\<forall>x \<in> ?K - set rest. \<forall>nb. allowedStep g an ae x nb \<longrightarrow> node nb \<in> ?K
              \<longrightarrow> distKey ?d' (node nb) \<le> distKey ?d' x + enat (weight nb)"
  proof (intro ballI allI impI)
    fix x nb assume "x \<in> ?K - set rest" and st: "allowedStep g an ae x nb" and nk: "node nb \<in> ?K"
    then have x: "x \<in> insert u (?K - set q)" using S' by simp
    show "distKey ?d' (node nb) \<le> distKey ?d' x + enat (weight nb)"
    proof (cases "x = u")
      case True
      then have "nb \<in> set ns" "stepOk an ae u nb" using st allowedStep_iff [OF ns] by simp_all
      then have "distKey ?d' (node nb) \<le> du + enat (weight nb)"
        using dom [OF nk] by (intro F_nb) simp_all
      then show ?thesis using True dku' by simp
    next
      case False
      then have xs: "x \<in> ?K - set q" using x by simp
      have "distKey ?d' (node nb) \<le> distKey ?d (node nb)" by (rule F_le)
      also have "\<dots> \<le> distKey ?d x + enat (weight nb)" using xs st nk by (rule I6)
      finally show ?thesis using keepK [OF x] by simp
    qed
  qed
  have C7: "\<forall>v \<in> ?K. predOk g an ae s ?d' ?p' (?K - set rest) v"
  proof
    fix v assume vK: "v \<in> ?K"
    show "predOk g an ae s ?d' ?p' (?K - set rest) v"
      using F_ch [of v]
    proof
      assume same: "?d' v = ?d v \<and> ?p' v = ?p v"
      then have dv: "distKey ?d' v = distKey ?d v" by (simp add: distKey_def)
      from I7 [OF vK] have old: "predOk g an ae s ?d ?p (?K - set q) v" .
      show ?thesis
      proof (cases "?p v")
        case None
        then show ?thesis using old by (simp add: predOk_def)
      next
        case (Some pv)
        show ?thesis
        proof (cases pv)
          case None
          then have pv': "?p' v = Some None" using same Some by simp
          have "v = s \<or> distKey ?d v = \<infinity>" using old Some None by (simp add: predOk_def)
          then show ?thesis unfolding predOk_def pv' option.case dv .
        next
          case (Some x)
          from old \<open>?p v = Some pv\<close> Some
          have vs: "v \<noteq> s" and xs: "x \<in> ?K - set q" and xf: "distKey ?d x < \<infinity>"
            and ex: "\<exists>nb. allowedStep g an ae x nb \<and> node nb = v
                       \<and> distKey ?d v = distKey ?d x + enat (weight nb)"
            by (simp_all add: predOk_def)
          have x': "x \<in> insert u (?K - set q)" using xs by simp
          have kx: "distKey ?d' x = distKey ?d x" by (rule keepK [OF x'])
          have pv': "?p' v = Some (Some x)" using same \<open>?p v = Some pv\<close> Some by simp
          from ex obtain nb where nb: "allowedStep g an ae x nb \<and> node nb = v
                       \<and> distKey ?d v = distKey ?d x + enat (weight nb)" ..
          have ex': "\<exists>nb. allowedStep g an ae x nb \<and> node nb = v
                       \<and> distKey ?d' v = distKey ?d' x + enat (weight nb)"
            using nb unfolding kx dv by (rule exI)
          have xf': "distKey ?d' x < \<infinity>" using xf kx by simp
          have x'': "x \<in> ?K - set rest" using x' S' by simp
          show ?thesis
            unfolding predOk_def pv' option.case
            using vs x'' xf' ex' by (intro conjI)
        qed
      qed
    next
      assume c: "?p' v = Some (Some u) \<and> distKey ?d' v < distKey ?d v
        \<and> (\<exists>nb \<in> set ns. stepOk an ae u nb \<and> node nb = v \<and> ?d' v = Some (du + enat (weight nb)))"
      then have "\<exists>nb \<in> set ns. stepOk an ae u nb \<and> node nb = v \<and> ?d' v = Some (du + enat (weight nb))"
        by simp
      then obtain nb where nb1: "nb \<in> set ns"
        and nb2: "stepOk an ae u nb \<and> node nb = v \<and> ?d' v = Some (du + enat (weight nb))" ..
      note nb = nb1 nb2 [THEN conjunct1] nb2 [THEN conjunct2, THEN conjunct1]
        nb2 [THEN conjunct2, THEN conjunct2]
      have st: "allowedStep g an ae u nb" using nb(1,2) allowedStep_iff [OF ns] by simp
      have vs: "v \<noteq> s"
      proof
        assume "v = s"
        then have "distKey ?d' s < distKey ?d s" using c by simp
        then show False using ds by (simp add: distKey_def)
      qed
      have e: "distKey ?d' v = distKey ?d' u + enat (weight nb)" using nb(4) dku' by (simp add: distKey_def)
      have pv': "?p' v = Some (Some u)" using c by (rule conjunct1)
      have u': "u \<in> ?K - set rest" using S' by simp
      have uf': "distKey ?d' u < \<infinity>" using dufin dku' by simp
      have ex': "\<exists>nb. allowedStep g an ae u nb \<and> node nb = v
                       \<and> distKey ?d' v = distKey ?d' u + enat (weight nb)"
        using st nb(3) e by (intro exI [of _ nb] conjI)
      show ?thesis
        unfolding predOk_def pv' option.case
        using vs u' uf' ex' by (intro conjI)
    qed
  qed
  show ?thesis
    unfolding dijkstraInv_def by (intro conjI dr C1b C2 C3 C4 C5 C6 C7)
qed


subsection \<open>The main loop ends in the postcondition\<close>

lemma loop_post:
  assumes wf: "wellFormedGraph g" and t: "t \<in> graphKeys g"
  shows "dijkstraInv g an ae s dp q
    \<Longrightarrow> \<exists>dp'. dijkstraLoop guard g t an ae dp q = Inr dp' \<and> dijkstraPost g an ae s t dp'"
proof (induction "length q" arbitrary: dp q rule: less_induct)
  case less
  note inv = less.prems
  show ?case
  proof (cases "sort_key (distKey (fst dp)) q")
    case Nil
    then have "length q = 0" using length_sort [of "distKey (fst dp)" q] by simp
    then have q: "q = []" by simp
    have "dijkstraLoop guard g t an ae dp q = Inr dp"
      by (subst dijkstraLoop.simps) (simp add: Nil)
    moreover have "dijkstraPost g an ae s t dp"
      using inv _ t by (rule inv_exit) (simp add: q)
    ultimately show ?thesis by blast
  next
    case (Cons u rest)
    note hd = sort_key_head [OF Cons]
    have uq: "u \<in> set q" using hd(1) by simp
    have uK: "u \<in> graphKeys g" using uq invD(2) [OF inv] by blast
    have une: "u \<noteq> []" using uK wf by (force simp: wellFormedGraph_def graphKeys_def)
    obtain du where du: "fst dp u = Some du" using invD(3) [OF inv] uK by blast
    show ?thesis
    proof (cases "u = t \<or> fst dp u = Some \<infinity>")
      case True
      have "dijkstraLoop guard g t an ae dp q = Inr dp"
        using True by (subst dijkstraLoop.simps) (auto simp: Cons)
      moreover have "dijkstraPost g an ae s t dp"
      proof (rule inv_exit [OF inv _ t], rule disjI2, rule bexI [OF _ uq], intro conjI)
        show "\<forall>y \<in> set q. distKey (fst dp) u \<le> distKey (fst dp) y" by (rule hd(2))
        show "u = t \<or> distKey (fst dp) u = \<infinity>" using True by (auto simp: distKey_def)
      qed
      ultimately show ?thesis by blast
    next
      case False
      then have ut: "u \<noteq> t" and fin: "fst dp u \<noteq> Some \<infinity>" by simp_all
      obtain ns where ns: "map_of g u = Some ns" using key_lookup [OF uK] by blast
      have unf: "dijkstraLoop guard g t an ae dp q
          = dijkstraLoop guard g t an ae (fold (relax an ae u) ns dp) rest"
        using ut fin une by (subst dijkstraLoop.simps) (simp add: Cons ns)
      have inv': "dijkstraInv g an ae s (fold (relax an ae u) ns dp) rest"
        using inv Cons fin ns by (rule inv_step)
      have "length q = Suc (length rest)"
        using length_sort [of "distKey (fst dp)" q] Cons by simp
      then have "length rest < length q" by simp
      from less.hyps [OF this inv'] show ?thesis unfolding unf .
    qed
  qed
qed

lemma map_of_const:
  "map_of (map (\<lambda>k. (k, c)) ks) k = (if k \<in> set ks then Some c else None)"
  by (induction ks) auto

lemma init_inv:
  assumes wf: "wellFormedGraph g"
  shows "dijkstraInv g an ae s
           ((map_of (map (\<lambda>k. (k, \<infinity>)) (map fst g)))(s \<mapsto> 0), map_of (map (\<lambda>k. (k, None)) (map fst g)))
           (map fst g)"
  unfolding dijkstraInv_def
proof (intro conjI)
  show "distinct (map fst g)" using wf by (simp add: wellFormedGraph_def)
  show "set (map fst g) \<subseteq> graphKeys g" by (simp add: graphKeys_def)
  show "\<forall>k \<in> graphKeys g. fst ((map_of (map (\<lambda>k. (k, \<infinity>)) (map fst g)))(s \<mapsto> 0::enat),
            map_of (map (\<lambda>k. (k, None::string option)) (map fst g))) k \<noteq> None"
    by (simp add: graphKeys_def map_of_const del: map_map)
  show "fst ((map_of (map (\<lambda>k. (k, \<infinity>)) (map fst g)))(s \<mapsto> 0::enat),
            map_of (map (\<lambda>k. (k, None::string option)) (map fst g))) s = Some 0"
    by simp
  show "\<forall>v \<in> graphKeys g. predOk g an ae s
          (fst ((map_of (map (\<lambda>k. (k, \<infinity>)) (map fst g)))(s \<mapsto> 0::enat),
            map_of (map (\<lambda>k. (k, None::string option)) (map fst g))))
          (snd ((map_of (map (\<lambda>k. (k, \<infinity>)) (map fst g)))(s \<mapsto> 0::enat),
            map_of (map (\<lambda>k. (k, None::string option)) (map fst g))))
          (graphKeys g - set (map fst g)) v"
    by (auto simp: predOk_def graphKeys_def map_of_const distKey_def simp del: map_map)
qed (simp_all add: graphKeys_def)

subsection \<open>Walking back along the predecessors\<close>

lemma walkBack_route:
  assumes wf: "wellFormedGraph g" and post: "dijkstraPost g an ae s t dp"
  shows "v \<in> graphKeys g \<Longrightarrow> distKey (fst dp) v = enat n
    \<Longrightarrow> \<exists>steps. walkBack (snd dp) v acc = Some (s # map node steps @ acc)
           \<and> routeTo g an ae s v steps \<and> cost steps = n \<and> (steps = [] \<longleftrightarrow> v = s)"
proof (induction n arbitrary: v acc rule: less_induct)
  case (less n)
  from post have s0: "fst dp s = Some 0"
    and pk: "\<And>v. v \<in> graphKeys g \<Longrightarrow> predOk g an ae s (fst dp) (snd dp) (graphKeys g) v"
    by (simp_all add: dijkstraPost_def)
  note pv = pk [OF less.prems(1)]
  show ?case
  proof (cases "snd dp v")
    case None
    then show ?thesis using pv by (simp add: predOk_def)
  next
    case (Some w)
    show ?thesis
    proof (cases w)
      case None
      then have "v = s \<or> distKey (fst dp) v = \<infinity>" using pv Some by (simp add: predOk_def)
      then have vs: "v = s" using less.prems(2) by auto
      then have n0: "n = 0" using less.prems(2) s0 by (simp add: distKey_def zero_enat_def)
      have "walkBack (snd dp) v acc = Some (s # map node [] @ acc)"
        using Some None vs by (subst walkBack.simps) simp
      moreover have "routeTo g an ae s v []" using vs by (simp add: routeTo_def)
      ultimately show ?thesis using n0 vs by (intro exI [of _ "[]"]) simp
    next
      case (Some u)
      from pv \<open>snd dp v = Some w\<close> Some
      have vs: "v \<noteq> s" and uK: "u \<in> graphKeys g" and uf: "distKey (fst dp) u < \<infinity>"
        and ex: "\<exists>nb. allowedStep g an ae u nb \<and> node nb = v
                   \<and> distKey (fst dp) v = distKey (fst dp) u + enat (weight nb)"
        by (simp_all add: predOk_def)
      from ex obtain nb where nb: "allowedStep g an ae u nb" "node nb = v"
        "distKey (fst dp) v = distKey (fst dp) u + enat (weight nb)" by blast
      from uf obtain m where m: "distKey (fst dp) u = enat m" by (cases "distKey (fst dp) u") auto
      have nm: "n = m + weight nb" using nb(3) m less.prems(2) by simp
      have pos: "0 < weight nb" using wf nb(1) by (rule allowedStep_positive)
      have mn: "m < n" using nm pos by simp
      from less.IH [OF mn uK m, of "v # acc"] obtain steps where st:
        "walkBack (snd dp) u (v # acc) = Some (s # map node steps @ v # acc)"
        "routeTo g an ae s u steps" "cost steps = m" by blast
      have wb: "walkBack (snd dp) v acc = walkBack (snd dp) u (v # acc)"
        using \<open>snd dp v = Some w\<close> Some by (subst walkBack.simps) simp
      have r: "routeTo g an ae s v (steps @ [nb])"
        using st(2) nb(1,2) by (simp add: routeTo_def route_snoc)
      show ?thesis
        using wb st(1,3) r nm nb(2) vs by (intro exI [of _ "steps @ [nb]"]) simp
    qed
  qed
qed

lemma findPathGen_correct:
  assumes wf: "wellFormedGraph g" and t: "t \<in> graphKeys g"
  shows "\<exists>p. findPathGen guard s t g an ae = Inr p
    \<and> (p = [] \<longleftrightarrow> s = t \<or> \<not> (\<exists>steps. routeTo g an ae s t steps))
    \<and> ((\<exists>steps. routeTo g an ae s t steps) \<longrightarrow>
         (\<exists>steps. routeTo g an ae s t steps \<and> map node steps = p
            \<and> (\<forall>steps'. routeTo g an ae s t steps' \<longrightarrow> cost steps \<le> cost steps')))"
proof -
  let ?dp0 = "((map_of (map (\<lambda>k. (k, \<infinity>)) (map fst g)))(s \<mapsto> 0::enat),
               map_of (map (\<lambda>k. (k, None::string option)) (map fst g)))"
  have "\<exists>dp'. dijkstraLoop guard g t an ae ?dp0 (map fst g) = Inr dp' \<and> dijkstraPost g an ae s t dp'"
    by (rule loop_post [OF wf t init_inv [OF wf]])
  then obtain dp where lp: "dijkstraLoop guard g t an ae ?dp0 (map fst g) = Inr dp"
    and post: "dijkstraPost g an ae s t dp" by blast
  from post have s0: "fst dp s = Some 0"
    and pt: "predOk g an ae s (fst dp) (snd dp) (graphKeys g) t"
    and lb: "\<And>steps. routeTo g an ae s t steps \<Longrightarrow> distKey (fst dp) t \<le> enat (cost steps)"
    using t by (simp_all add: dijkstraPost_def)
  have fp: "findPathGen guard s t g an ae =
      (if snd dp t \<noteq> Some None \<or> t = s
       then (case walkBack (snd dp) t [] of None \<Rightarrow> Inl NoReturn | Some p \<Rightarrow> Inr (tl p))
       else Inr [])"
    using lp by (simp add: findPathGen_def Let_def)
  show ?thesis
  proof (cases "distKey (fst dp) t")
    case infinity
    then have ts: "t \<noteq> s" using s0 by (auto simp: distKey_def)
    have pn: "snd dp t = Some None"
      using pt infinity by (auto simp: predOk_def split: option.splits)
    have no: "\<not> (\<exists>steps. routeTo g an ae s t steps)"
    proof
      assume "\<exists>steps. routeTo g an ae s t steps"
      then obtain steps where "routeTo g an ae s t steps" ..
      from lb [OF this] show False using infinity by simp
    qed
    have "findPathGen guard s t g an ae = Inr []" using fp pn ts by simp
    then show ?thesis using no by simp
  next
    case (enat n)
    from walkBack_route [OF wf post t enat, of "[]"] obtain steps where st:
      "walkBack (snd dp) t [] = Some (s # map node steps @ [])"
      "routeTo g an ae s t steps" "cost steps = n" "steps = [] \<longleftrightarrow> t = s" by blast
    have cond: "snd dp t \<noteq> Some None \<or> t = s"
      using pt enat by (auto simp: predOk_def split: option.splits)
    have res: "findPathGen guard s t g an ae = Inr (map node steps)"
      using fp cond st(1) by simp
    have mini: "\<forall>steps'. routeTo g an ae s t steps' \<longrightarrow> cost steps \<le> cost steps'"
    proof (intro allI impI)
      fix steps' assume "routeTo g an ae s t steps'"
      from lb [OF this] show "cost steps \<le> cost steps'" using enat st(3) by simp
    qed
    have e: "(map node steps = []) = (s = t)" using st(4) by auto
    show ?thesis
      using res st(2) mini e by (intro exI [of _ "map node steps"]) auto
  qed
qed

text \<open>
  C3, as the code has it: for a graph with distinct non-empty keys and positive weights
  and a goal that is a key, \<^verbatim>\<open>findPath\<close> returns, and what it returns is the node sequence
  (without the start node) of a minimum-cost route from start to goal among the routes
  whose steps avoid every node of \<^verbatim>\<open>avoidNodes\<close> and every undirected edge of
  \<^verbatim>\<open>avoidEdges\<close>, whenever such a route exists. The result is empty exactly when no such
  route exists or the start is the goal.
\<close>

theorem findPath_minimal:
  assumes "wellFormedGraph graph" and "goal \<in> graphKeys graph"
  shows "\<exists>p. findPath start goal graph avoidNodes avoidEdges = Inr p
    \<and> (p = [] \<longleftrightarrow> start = goal \<or> \<not> (\<exists>steps. routeTo graph avoidNodes avoidEdges start goal steps))
    \<and> ((\<exists>steps. routeTo graph avoidNodes avoidEdges start goal steps) \<longrightarrow>
         (\<exists>steps. routeTo graph avoidNodes avoidEdges start goal steps \<and> map node steps = p
            \<and> (\<forall>steps'. routeTo graph avoidNodes avoidEdges start goal steps'
                  \<longrightarrow> cost steps \<le> cost steps')))"
  unfolding findPath_def using assms by (rule findPathGen_correct)

text \<open>
  C3, counterexample: from A to A the empty route exists, and the result is empty.
\<close>

theorem findPath_empty_counterexample:
  "findPath ''A'' ''A'' graphAB [] [] = Inr [] \<and> routeTo graphAB [] [] ''A'' ''A'' []"
proof -
  have "findPath ''A'' ''A'' graphAB [] [] = Inr []" by code_simp
  then show ?thesis by (simp add: routeTo_def routeEnd_def)
qed

lemma wellFormed_ABCD: "wellFormedGraph graphABCD"
  by (simp add: wellFormedGraph_def graphABCD_def gn_def)

lemma route_ADC:
  "routeTo graphABCD [] [(''A'', ''B'')] ''A'' ''C'' [gn ''D'' 100, gn ''C'' 100]"
  by (simp add: routeTo_def routeEnd_def allowedStep_def isEdgeAvoided_def graphABCD_def gn_def)

lemma findPath_detour: "findPath ''A'' ''C'' graphABCD [] [(''A'', ''B'')] = Inr [''D'', ''C'']"
  by code_simp

theorem findPath_minimal_witness:
  "wellFormedGraph graphABCD \<and> ''C'' \<in> graphKeys graphABCD
   \<and> routeTo graphABCD [] [(''A'', ''B'')] ''A'' ''C'' [gn ''D'' 100, gn ''C'' 100]
   \<and> (\<exists>steps. routeTo graphABCD [] [(''A'', ''B'')] ''A'' ''C'' steps
         \<and> map node steps = [''D'', ''C'']
         \<and> (\<forall>steps'. routeTo graphABCD [] [(''A'', ''B'')] ''A'' ''C'' steps'
               \<longrightarrow> cost steps \<le> cost steps'))"
proof -
  have k: "''C'' \<in> graphKeys graphABCD" by (simp add: graphKeys_def graphABCD_def)
  from findPath_minimal [OF wellFormed_ABCD k, of "''A''" "[]" "[(''A'', ''B'')]"]
  show ?thesis
    using route_ADC wellFormed_ABCD k by (auto simp: findPath_detour)
qed

section \<open>The tick\<close>

lemma sqrt_10000: "sqrt 10000 = 100"
  by (rule real_sqrt_unique) simp_all

lemma scan_repath:
  "action (scanAgvs ego all cn nn) = REPATH_HEAD_ON
   \<Longrightarrow> avoidData (scanAgvs ego all cn nn) = Some (currentNode ego, showNode (pathHead (path ego)))"
  by (induction all) (auto simp: checkOther_def Let_def verdict_def split: option.splits if_splits)

lemma rules_repath:
  assumes "action (checkTrafficRules ego all cn nn) = REPATH_HEAD_ON" and "path ego = nx # rest"
  shows "avoidData (checkTrafficRules ego all cn nn) = Some (currentNode ego, nx)"
  using assms scan_repath [of ego all cn nn]
  by (auto simp: checkTrafficRules_def verdict_def showNode_def pathHead_def split: option.splits)

lemma edgeLength_sqrt:
  assumes "edgeLength mapData a b = Some e" "findNode mapData a = Some na" "findNode mapData b = Some nb"
  shows "e = sqrt ((node_x nb - node_x na) * (node_x nb - node_x na)
                  + (node_y nb - node_y na) * (node_y nb - node_y na))"
  using assms by (simp add: edgeLength_def Let_def)

lemma edgeLength_sym:
  assumes "edgeLength mapData a b = Some e"
  shows "edgeLength mapData b a = Some e"
  using assms
  by (auto simp: edgeLength_def Let_def power2_eq_square [symmetric] power2_commute
      split: option.splits)

lemma repath_tick:
  assumes ap: "autoPilot mapData graph randomMoveMode prevAgvs r1 r2 now agv = None"
    and tg: "targetNode agv = Some tgt" "tgt \<noteq> []"
    and pa: "path agv = nextNodeId # rest"
    and cn: "findNode mapData (currentNode agv) = Some cn"
    and nn: "findNode mapData nextNodeId = Some nn"
    and act: "action (checkTrafficRules (agv\<lparr>reservedNodes := take (hardBorrowLength agv) (path agv)\<rparr>)
                prevAgvs cn nn) = REPATH_HEAD_ON"
    and mid: "0.05 \<le> progress agv"
    and det: "findPath (currentNode agv) tgt graph [] [(currentNode agv, nextNodeId)] = Inr detour"
             "detour \<noteq> []"
    and len: "edgeLength mapData (currentNode agv) nextNodeId = Some e"
  shows "updateAgv mapData graph randomMoveMode prevAgvs r1 r2 now agv
      = Inr (agv\<lparr>currentNode := nextNodeId, path := currentNode agv # detour,
               progress := 1 - progress agv, progressDistance := e * (1 - progress agv),
               status := REPATHING, waitTimer := 0, currentSpeed := 0, pathRank := 0,
               reservedNodes := take (hardBorrowLength agv) detour\<rparr>)"
proof -
  let ?ego = "agv\<lparr>reservedNodes := take (hardBorrowLength agv) (path agv)\<rparr>"
  have av: "avoidData (checkTrafficRules ?ego prevAgvs cn nn) = Some (currentNode agv, nextNodeId)"
    using rules_repath [OF act, of nextNodeId rest] pa by simp
  note e = edgeLength_sqrt [OF len cn nn]
  have rp: "repathHeadOn graph now agv tgt nextNodeId e (Some (currentNode agv, nextNodeId))
      = Inr (agv\<lparr>currentNode := nextNodeId, path := currentNode agv # detour,
               progress := 1 - progress agv, progressDistance := e * (1 - progress agv),
               status := REPATHING, waitTimer := 0, currentSpeed := 0, pathRank := 0,
               reservedNodes := take (hardBorrowLength agv) detour\<rparr>)"
    using det mid by (simp add: repathHeadOn_def Let_def)
  have "updateAgv mapData graph randomMoveMode prevAgvs r1 r2 now agv
      = repathHeadOn graph now agv tgt nextNodeId e (Some (currentNode agv, nextNodeId))"
    using ap tg pa cn nn act av e by (simp add: updateAgv_def movement_def Let_def)
  then show ?thesis using rp by simp
qed

text \<open>
  C4: the arbiter answers REPATH_HEAD_ON for a vehicle with progress at least 0.05, and a
  detour that avoids the edge (currentNode, path[0]) exists. Then the tick makes the old
  path[0] the current node, puts the old current node in front of the detour, sets the
  progress to 1 - progress and the progress distance to edge length times (1 - progress),
  and leaves \<open>x\<close> and \<open>y\<close> as they are. For an edge of positive length \<open>e\<close> the new record
  is consistent: its progress is its progress distance divided by the length of the
  edge between its current node and its path[0].
\<close>

theorem head_on_reversal_consistent:
  assumes ap: "autoPilot mapData graph randomMoveMode prevAgvs r1 r2 now agv = None"
    and tg: "targetNode agv = Some tgt" "tgt \<noteq> []"
    and pa: "path agv = nextNodeId # rest"
    and cn: "findNode mapData (currentNode agv) = Some cn"
    and nn: "findNode mapData nextNodeId = Some nn"
    and act: "action (checkTrafficRules (agv\<lparr>reservedNodes := take (hardBorrowLength agv) (path agv)\<rparr>)
                prevAgvs cn nn) = REPATH_HEAD_ON"
    and mid: "0.05 \<le> progress agv"
    and det: "findPath (currentNode agv) tgt graph [] [(currentNode agv, nextNodeId)] = Inr detour"
             "detour \<noteq> []"
    and len: "edgeLength mapData (currentNode agv) nextNodeId = Some e" "0 < e"
  shows "\<exists>agv'. updateAgv mapData graph randomMoveMode prevAgvs r1 r2 now agv = Inr agv'
           \<and> currentNode agv' = nextNodeId \<and> path agv' = currentNode agv # detour
           \<and> progress agv' = 1 - progress agv \<and> progressDistance agv' = e * (1 - progress agv)
           \<and> agv_x agv' = agv_x agv \<and> agv_y agv' = agv_y agv
           \<and> edgeLength mapData (currentNode agv') (hd (path agv')) = Some e
           \<and> progress agv' = progressDistance agv' / e"
  using repath_tick [OF ap tg pa cn nn act mid det len(1)] edgeLength_sym [OF len(1)] len(2)
  by simp


lemmas fixture_defs = egoMid_def headOnBA_def egoAB_def idleAtB_def parked_def nodeA_def nodeB_def
  nodeC_def nodeD_def mapABCD_def

lemma findNode_A: "findNode mapABCD ''A'' = Some nodeA"
  by (simp add: findNode_def fixture_defs)

lemma findNode_B: "findNode mapABCD ''B'' = Some nodeB"
  by (simp add: findNode_def fixture_defs)

lemma edgeLength_AB: "edgeLength mapABCD ''A'' ''B'' = Some 100"
  by (simp add: edgeLength_def findNode_A findNode_B Let_def) (simp add: nodeA_def nodeB_def sqrt_10000)

lemma headOn_mid:
  "checkTrafficRules (egoMid\<lparr>reservedNodes := take (hardBorrowLength egoMid) (path egoMid)\<rparr>)
     [egoMid, headOnBA] nodeA nodeB
   = verdict REPATH_HEAD_ON (''Head-on w/ AGV-'' @ sliceLast4 (natToString 3)) (Some (''A'', ''B'')) 3"
  by (simp add: checkTrafficRules_def reservingAgv_def checkOther_def headOn_def pathHead_def
      showNode_def fixture_defs)

theorem head_on_reversal_consistent_witness:
  "\<exists>agv'. updateAgv mapABCD graphABCD False [egoMid, headOnBA] 0 0 7 egoMid = Inr agv'
      \<and> currentNode agv' = ''B'' \<and> path agv' = [''A'', ''D'', ''C'']
      \<and> progress agv' = 1 / 2 \<and> progressDistance agv' = 50
      \<and> agv_x agv' = 50 \<and> agv_y agv' = 0
      \<and> edgeLength mapABCD (currentNode agv') (hd (path agv')) = Some 100
      \<and> progress agv' = progressDistance agv' / 100"
proof -
  have ap: "autoPilot mapABCD graphABCD False [egoMid, headOnBA] 0 0 7 egoMid = None"
    by (simp add: autoPilot_def)
  have tg: "targetNode egoMid = Some ''C''" "''C'' \<noteq> []"
    by (simp_all add: egoMid_def)
  have pa: "path egoMid = ''B'' # [''C'']"
    by (simp add: egoMid_def)
  have cn: "findNode mapABCD (currentNode egoMid) = Some nodeA"
    by (simp add: findNode_A [symmetric]) (simp add: fixture_defs)
  have act: "action (checkTrafficRules (egoMid\<lparr>reservedNodes := take (hardBorrowLength egoMid) (path egoMid)\<rparr>)
                [egoMid, headOnBA] nodeA nodeB) = REPATH_HEAD_ON"
    by (simp only: headOn_mid) (simp add: verdict_def)
  have mid: "0.05 \<le> progress egoMid"
    by (simp add: egoMid_def)
  have cur: "currentNode egoMid = ''A''"
    by (simp add: fixture_defs)
  have det: "findPath (currentNode egoMid) ''C'' graphABCD [] [(currentNode egoMid, ''B'')] = Inr [''D'', ''C'']"
    by (simp only: cur findPath_detour)
  have len: "edgeLength mapABCD (currentNode egoMid) ''B'' = Some 100"
    by (simp only: cur edgeLength_AB)
  show ?thesis
    using head_on_reversal_consistent [OF ap tg pa cn findNode_B act mid det _ len]
    by (simp add: cur) (simp add: egoMid_def parked_def nodeA_def)
qed



text \<open>
  C5, as the code has it: the wait timer of a waiting vehicle crosses RETRY_INTERVAL, the
  incremented retry count is at least 3 and no step back is made. The ranked retry then
  replans around the blocked node and does not advance \<open>pathRank\<close>: without a detour the
  vehicle stays WAITING with its rank unchanged and the incremented retry count; with a
  detour it turns to DETOUR with rank and retry count reset to 0.
\<close>

theorem ranked_retry_keeps_rank:
  assumes ap: "autoPilot mapData graph randomMoveMode prevAgvs r1 r2 now agv = None"
    and tg: "targetNode agv = Some tgt" "tgt \<noteq> []"
    and pa: "path agv = nextNodeId # rest"
    and cn: "findNode mapData (currentNode agv) = Some cn"
    and nn: "findNode mapData nextNodeId = Some nn"
    and len: "edgeLength mapData (currentNode agv) nextNodeId = Some e"
    and res: "res = checkTrafficRules (agv\<lparr>reservedNodes := take (hardBorrowLength agv) (path agv)\<rparr>)
                prevAgvs cn nn"
    and act: "action res = WAIT"
    and tm: "RETRY_INTERVAL < waitTimer agv + 1"
    and rc: "3 \<le> retryCount agv + 1"
    and sb: "stepBackAttempt graph prevAgvs agv tgt nextNodeId e (blockerId res) = Inr None"
    and det: "findPath (currentNode agv) tgt graph [nextNodeId] [] = Inr detour"
  shows "\<exists>agv'. updateAgv mapData graph randomMoveMode prevAgvs r1 r2 now agv = Inr agv'
           \<and> (if detour = []
               then status agv' = WAITING \<and> pathRank agv' = pathRank agv
                    \<and> retryCount agv' = retryCount agv + 1
               else status agv' = DETOUR \<and> pathRank agv' = 0 \<and> retryCount agv' = 0)"
proof -
  have e: "e = sqrt ((node_x nn - node_x cn) * (node_x nn - node_x cn)
                    + (node_y nn - node_y cn) * (node_y nn - node_y cn))"
    using len cn nn by (simp add: edgeLength_def Let_def)
  show ?thesis
    using ap tg pa cn nn res act tm sb det unfolding e
    by (simp add: updateAgv_def movement_def waitBranch_def rankedRetry_def Let_def)
qed

lemma findNode_A2: "findNode mapAB ''A'' = Some nodeA"
  by (simp add: findNode_def mapAB_def nodeA_def)

lemma findNode_B2: "findNode mapAB ''B'' = Some nodeB"
  by (simp add: findNode_def mapAB_def nodeA_def nodeB_def)

lemma edgeLength_AB2: "edgeLength mapAB ''A'' ''B'' = Some 100"
  by (simp add: edgeLength_def findNode_A2 findNode_B2 Let_def) (simp add: nodeA_def nodeB_def sqrt_10000)

lemma findPath_blocked: "findPath ''A'' ''B'' graphAB [''B''] [] = Inr []"
  by code_simp

lemma waiting_verdict:
  "checkTrafficRules (egoWaiting\<lparr>reservedNodes := take (hardBorrowLength egoWaiting) (path egoWaiting)\<rparr>)
     [egoWaiting, idleAtB] nodeA nodeB
   = verdict WAIT ''Dest B Occupied'' None 2"
  by (simp add: checkTrafficRules_def reservingAgv_def checkOther_def headOn_def destOccupied_def
      pathHead_def showNode_def egoWaiting_def fixture_defs)

lemma waiting_no_stepBack:
  "stepBackAttempt graphAB [egoWaiting, idleAtB] egoWaiting ''B'' ''B'' 100 (Some 2) = Inr None"
  by (simp add: stepBackAttempt_def isBlockerWaiting_def egoWaiting_def fixture_defs)

text \<open>
  C5, counterexample: the rank is not advanced; a vehicle at rank 0 whose third retry finds no detour keeps
  rank 0.
\<close>

theorem ranked_retry_rank_counterexample:
  "RETRY_INTERVAL < waitTimer egoWaiting + 1 \<and> retryCount egoWaiting + 1 = 3
   \<and> stepBackAttempt graphAB [egoWaiting, idleAtB] egoWaiting ''B'' ''B'' 100 (Some 2) = Inr None
   \<and> pathRank egoWaiting = 0
   \<and> updateAgv mapAB graphAB False [egoWaiting, idleAtB] 0 0 7 egoWaiting
       = Inr (egoWaiting\<lparr>waitTimer := 0, retryCount := 3, pathRank := 0, reservedNodes := []\<rparr>)"
proof -
  have a: "RETRY_INTERVAL < waitTimer egoWaiting + 1" "retryCount egoWaiting + 1 = 3"
    "pathRank egoWaiting = 0"
    by (simp_all add: RETRY_INTERVAL_def egoWaiting_def fixture_defs)
  have cur: "currentNode egoWaiting = ''A''" "path egoWaiting = [''B'']" "targetNode egoWaiting = Some ''B''"
    by (simp_all add: egoWaiting_def fixture_defs)
  have "updateAgv mapAB graphAB False [egoWaiting, idleAtB] 0 0 7 egoWaiting
       = Inr (egoWaiting\<lparr>waitTimer := 0, retryCount := 3, pathRank := 0, reservedNodes := []\<rparr>)"
    using a
    apply (simp add: updateAgv_def autoPilot_def movement_def cur findNode_A2 findNode_B2 Let_def
       waiting_verdict [simplified cur])
    apply (simp add: verdict_def waitBranch_def Let_def)
    apply (simp add: nodeA_def nodeB_def sqrt_10000 waiting_no_stepBack rankedRetry_def cur
         findPath_blocked Let_def)
    apply (simp add: egoWaiting_def fixture_defs)
    done
  then show ?thesis using a waiting_no_stepBack by simp
qed


theorem ranked_retry_keeps_rank_witness:
  "\<exists>agv'. updateAgv mapAB graphAB False [egoWaiting, idleAtB] 0 0 7 egoWaiting = Inr agv'
      \<and> status agv' = WAITING \<and> pathRank agv' = 0 \<and> retryCount agv' = 3"
proof -
  have cur: "currentNode egoWaiting = ''A''" "path egoWaiting = ''B'' # []"
    "targetNode egoWaiting = Some ''B''" "pathRank egoWaiting = 0" "retryCount egoWaiting = 2"
    by (simp_all add: egoWaiting_def fixture_defs)
  have ap: "autoPilot mapAB graphAB False [egoWaiting, idleAtB] 0 0 7 egoWaiting = None"
    by (simp add: autoPilot_def)
  have cn: "findNode mapAB (currentNode egoWaiting) = Some nodeA"
    by (simp only: cur findNode_A2)
  have len: "edgeLength mapAB (currentNode egoWaiting) ''B'' = Some 100"
    by (simp only: cur edgeLength_AB2)
  have act: "action (verdict WAIT ''Dest B Occupied'' None 2) = WAIT"
    by (simp add: verdict_def)
  have tm: "RETRY_INTERVAL < waitTimer egoWaiting + 1"
    by (simp add: RETRY_INTERVAL_def egoWaiting_def)
  have rc: "3 \<le> retryCount egoWaiting + 1"
    by (simp add: cur)
  have sb: "stepBackAttempt graphAB [egoWaiting, idleAtB] egoWaiting ''B'' ''B'' 100
              (blockerId (verdict WAIT ''Dest B Occupied'' None 2)) = Inr None"
    by (simp add: verdict_def waiting_no_stepBack)
  have det: "findPath (currentNode egoWaiting) ''B'' graphAB [''B''] [] = Inr []"
    by (simp only: cur findPath_blocked)
  show ?thesis
    using ranked_retry_keeps_rank [OF ap cur(3) _ cur(2) cn findNode_B2 len waiting_verdict [symmetric] act tm rc sb det]
    by (simp add: cur)
qed


lemma idle_tick:
  assumes "targetNode agv = None" and "randomMoveMode \<longrightarrow> 0.05 \<le> r1"
  shows "updateAgv mapData graph randomMoveMode prevAgvs r1 r2 now agv = Inr (idle agv)"
  using assms by (auto simp: updateAgv_def autoPilot_def movement_def)

lemma ticks_idle:
  assumes "targetNode agv = None" and "envs \<noteq> []"
    and "randomMoveMode \<longrightarrow> (\<forall>env \<in> set envs. 0.05 \<le> fst (snd env))"
  shows "\<exists>agv'. ticks mapData graph randomMoveMode envs agv = Inr agv' \<and> status agv' = IDLE
           \<and> targetNode agv' = None \<and> path agv' = path agv \<and> currentNode agv' = currentNode agv"
  using assms
proof (induction envs arbitrary: agv)
  case Nil
  then show ?case by simp
next
  case (Cons env rest)
  have t: "updateAgv mapData graph randomMoveMode (fst env) (fst (snd env)) (fst (snd (snd env)))
             (snd (snd (snd env))) agv = Inr (idle agv)"
    using Cons.prems by (intro idle_tick) simp_all
  show ?case
  proof (cases "rest = []")
    case True
    then show ?thesis using t by (simp add: idle_def Let_def Cons.prems(1))
  next
    case False
    have "targetNode (idle agv) = None" using Cons.prems(1) by (simp add: idle_def Let_def)
    from Cons.IH [OF this False] Cons.prems(3)
    show ?thesis using t by (simp add: idle_def Let_def)
  qed
qed

text \<open>
  C6, as the code has it: a vehicle that has reached COMPLETED (its target is null) is
  IDLE after every later tick, one or more, on which the auto-pilot draws no target; its
  target stays null and its path and node are unchanged. COMPLETED itself lasts one tick.
\<close>

theorem completed_turns_idle:
  assumes "status agv = COMPLETED" and "targetNode agv = None" and "envs \<noteq> []"
    and "randomMoveMode \<longrightarrow> (\<forall>env \<in> set envs. 0.05 \<le> fst (snd env))"
  shows "\<exists>agv'. ticks mapData graph randomMoveMode envs agv = Inr agv' \<and> status agv' = IDLE
           \<and> targetNode agv' = None \<and> path agv' = path agv \<and> currentNode agv' = currentNode agv"
  using assms(2-4) by (rule ticks_idle)

lemma arrival_tick:
  "updateAgv mapAB graphAB False [arriving] r1 r2 now arriving = Inr completedAtB"
proof -
  have cur: "currentNode arriving = ''A''" "path arriving = [''B'']" "targetNode arriving = Some ''B''"
    by (simp_all add: arriving_def fixture_defs)
  have v: "checkTrafficRules (arriving\<lparr>reservedNodes := r\<rparr>) [arriving] nodeA nodeB
      = \<lparr>action = MOVE, conflictReason = None, avoidData = None, blockerId = None\<rparr>" for r
    by (simp add: checkTrafficRules_def reservingAgv_def arriving_def fixture_defs)
  show ?thesis
    apply (simp add: updateAgv_def autoPilot_def movement_def cur findNode_A2 findNode_B2 Let_def v)
    apply (simp add: physics_def brakes_def arrive_def convergeSpeed_def Let_def cur nodeA_def nodeB_def
        sqrt_10000 atan2_def)
    apply (simp add: arriving_def completedAtB_def fixture_defs)
    done
qed

text \<open>
  C6, counterexample: COMPLETED is not absorbing; the vehicle arrives and is COMPLETED, and the next tick,
  with no target set in between, makes it IDLE.
\<close>

theorem completed_not_absorbing_counterexample:
  "ticks mapAB graphAB False [([arriving], 0, 0, 1)] arriving = Inr completedAtB
   \<and> status completedAtB = COMPLETED
   \<and> ticks mapAB graphAB False [([completedAtB], 0, 0, 2)] completedAtB
       = Inr (completedAtB\<lparr>status := IDLE\<rparr>)"
proof -
  have t: "targetNode completedAtB = None" by (simp add: completedAtB_def parked_def)
  have i: "idle completedAtB = completedAtB\<lparr>status := IDLE\<rparr>"
    by (simp add: idle_def completedAtB_def parked_def)
  show ?thesis
    by (simp add: arrival_tick idle_tick [OF t] i) (simp add: completedAtB_def)
qed

theorem completed_turns_idle_witness:
  "\<exists>agv'. ticks mapAB graphAB False [([completedAtB], 0, 0, 2), ([completedAtB], 0, 0, 3)] completedAtB = Inr agv'
      \<and> status agv' = IDLE \<and> targetNode agv' = None \<and> path agv' = [] \<and> currentNode agv' = ''B''"
proof -
  have a: "status completedAtB = COMPLETED" "targetNode completedAtB = None"
    "path completedAtB = []" "currentNode completedAtB = ''B''"
    by (simp_all add: completedAtB_def parked_def nodeB_def)
  show ?thesis
    using completed_turns_idle [OF a(1) a(2), of "[([completedAtB], 0, 0, 2), ([completedAtB], 0, 0, 3)]" False mapAB graphAB]
    by (simp add: a)
qed

subsection \<open>Speed bounds\<close>



















subsection \<open>A target that cannot be reached\<close>

lemma planning_tick:
  assumes "status agv = PLANNING" "path agv = []"
  shows "updateAgv mapData graph randomMoveMode prevAgvs r1 r2 now agv = Inr (idle agv)"
  using assms by (auto simp: updateAgv_def autoPilot_def movement_def split: option.splits)

lemma scan_no_path:
  "conflictReason (scanAgvs ego agvs cn nn) \<noteq> Some ''no path''"
  by (induction agvs)
     (auto simp: checkOther_def verdict_def Let_def split: option.splits if_splits)

lemma rules_no_path:
  "conflictReason (checkTrafficRules ego agvs cn nn) \<noteq> Some ''no path''"
  by (simp add: checkTrafficRules_def verdict_def scan_no_path split: option.splits)

lemma repath_outcome:
  assumes "repathHeadOn graph now a tgt nx e av = Inr a2"
  shows "status a2 \<in> {REPATHING, BLOCKED} \<and> waitReason a2 = waitReason a"
  using assms by (auto simp: repathHeadOn_def Let_def split: sum.splits if_splits)

lemma stepBack_outcome:
  assumes "stepBack graph a tgt nx e = Inr (Some a2)"
  shows "status a2 \<in> {REPATHING, DETOUR} \<and> waitReason a2 = waitReason a"
  using assms
  by (auto simp: stepBack_def Let_def split: sum.splits if_splits option.splits prod.splits)

lemma rankedRetry_outcome:
  assumes "rankedRetry graph a tgt nx e reason ns n = Inr a2"
  shows "status a2 \<in> {DETOUR, WAITING} \<and> (waitReason a2 = waitReason a \<or> waitReason a2 = reason)"
  using assms by (auto simp: rankedRetry_def Let_def split: sum.splits if_splits)

lemma wait_outcome:
  assumes r: "waitBranch graph prevAgvs a tgt nx e reason blocker = Inr a2"
  shows "status a2 \<in> {REPATHING, DETOUR, WAITING}
    \<and> (waitReason a2 = waitReason a \<or> waitReason a2 = reason)"
proof (cases "RETRY_INTERVAL < waitTimer a + 1")
  case False
  then show ?thesis using r by (auto simp: waitBranch_def Let_def)
next
  case True
  show ?thesis
  proof (cases "stepBackAttempt graph prevAgvs a tgt nx e blocker")
    case (Inl x)
    then show ?thesis using r True by (simp add: waitBranch_def Let_def)
  next
    case (Inr so)
    show ?thesis
    proof (cases so)
      case None
      then have "rankedRetry graph a tgt nx e reason (max 0 (currentSpeed a - deceleration a))
                   (retryCount a + 1) = Inr a2"
        using Inr True r by (simp add: waitBranch_def Let_def)
      from rankedRetry_outcome [OF this] show ?thesis by auto
    next
      case (Some st)
      then have "stepBack graph a tgt nx e = Inr (Some st)"
        using Inr by (simp add: stepBackAttempt_def Let_def split: if_splits)
      moreover have "a2 = st" using Inr Some True r by (simp add: waitBranch_def Let_def)
      ultimately show ?thesis using stepBack_outcome [of graph a tgt nx e st] by auto
    qed
  qed
qed

lemma physics_outcome:
  assumes r: "physics a cn nn nx = Inr a2" and p: "path a = [n]"
  shows "(status a2 = COMPLETED \<and> currentNode a2 = nx \<and> path a2 = [] \<and> targetNode a2 = None
          \<and> waitReason a2 = None)
       \<or> (status a2 = MOVING \<and> path a2 = [n] \<and> targetNode a2 = targetNode a
          \<and> waitReason a2 = None)"
proof -
  have "(\<exists>ang ns. a2 = arrive a nn nx ang ns) \<or> (\<exists>x y pd pr ang ns. a2 = advance a x y pd pr ang ns)"
    using r unfolding physics_def Let_def
    by (simp split: if_splits) blast+
  then show ?thesis
    by (auto simp: arrive_def advance_def Let_def p)
qed

lemma movement_outcome:
  assumes tg: "targetNode a = Some tgt" "tgt \<noteq> []" and p: "path a = [n]"
    and st: "status a = PLANNING" and wr: "waitReason a = None"
    and r: "movement mapData graph prevAgvs now a = Inr a2"
  shows "status a2 \<noteq> IDLE \<and> waitReason a2 \<noteq> Some ''no path''
    \<and> (status a2 = MOVING \<longrightarrow> path a2 = [n] \<and> targetNode a2 = Some tgt)
    \<and> (status a2 = COMPLETED \<longrightarrow> currentNode a2 = n \<and> path a2 = [] \<and> targetNode a2 = None)"
proof (cases "findNode mapData (currentNode a)")
  case None
  then have "a2 = a" using r tg p by (simp add: movement_def)
  then show ?thesis using st wr by simp
next
  case (Some cn)
  show ?thesis
  proof (cases "findNode mapData n")
    case None
    then have "a2 = a" using r tg p Some by (simp add: movement_def)
    then show ?thesis using st wr by simp
  next
    case nn: (Some nn)
    define res where "res = checkTrafficRules (a\<lparr>reservedNodes := take (hardBorrowLength a) (path a)\<rparr>)
                              prevAgvs cn nn"
    define e where "e = sqrt ((node_x nn - node_x cn) * (node_x nn - node_x cn)
                             + (node_y nn - node_y cn) * (node_y nn - node_y cn))"
    have rr: "conflictReason res \<noteq> Some ''no path''"
      unfolding res_def by (rule rules_no_path)
    have m: "(if action res = REPATH_HEAD_ON then repathHeadOn graph now a tgt n e (avoidData res)
              else if action res = WAIT
              then waitBranch graph prevAgvs a tgt n e (conflictReason res) (blockerId res)
              else physics a cn nn n) = Inr a2"
      using r tg p Some nn unfolding res_def e_def
      by (simp add: movement_def Let_def split: if_splits)
    show ?thesis
    proof (cases "action res = REPATH_HEAD_ON")
      case True
      then have "repathHeadOn graph now a tgt n e (avoidData res) = Inr a2" using m by simp
      from repath_outcome [OF this] show ?thesis using wr by auto
    next
      case False
      show ?thesis
      proof (cases "action res = WAIT")
        case True
        then have "waitBranch graph prevAgvs a tgt n e (conflictReason res) (blockerId res) = Inr a2"
          using m False by simp
        from wait_outcome [OF this] show ?thesis using wr rr by auto
      next
        case nw: False
        then have "physics a cn nn n = Inr a2" using m False by simp
        from physics_outcome [OF this p] show ?thesis using tg by auto
      qed
    qed
  qed
qed

text \<open>
  C8, as the code has it: a vehicle is given a target, a node of the graph to which no
  route leads from the node its search starts at (the node it is driving to when it is
  mid-edge, its own node otherwise); the graph has distinct non-empty node ids and
  positive weights. Setting the target returns no error: the vehicle gets the target,
  status PLANNING and a null \<^verbatim>\<open>waitReason\<close>; its path is the prefix (the node it is
  driving to when mid-edge, nothing otherwise) and its reservation the first
  \<^verbatim>\<open>hardBorrowLength\<close> nodes of that path. For a vehicle that is not mid-edge the next tick
  returns and leaves it IDLE with an empty path and no reservation; the target stays set
  and \<^verbatim>\<open>waitReason\<close> stays null. A mid-edge vehicle is never IDLE after the next tick
  and its \<^verbatim>\<open>waitReason\<close> is never "no path": if the tick leaves it MOVING its path is
  still the node it is driving to and its target the unreachable node, and if the tick
  leaves it COMPLETED it stands at the node it was driving to, with an empty path and
  the target cleared.
\<close>

theorem unreachable_target:
  assumes wf: "wellFormedGraph graph" and key: "nodeId \<in> graphKeys graph"
    and unreachable: "\<not> (\<exists>steps. routeTo graph [] [] (searchStartNode agv) nodeId steps)"
  shows "\<exists>a1. setTarget graph nodeId agv = Inr a1
           \<and> status a1 = PLANNING \<and> targetNode a1 = Some nodeId \<and> waitReason a1 = None
           \<and> path a1 = pathPrefix agv
           \<and> reservedNodes a1 = take (hardBorrowLength agv) (pathPrefix agv)
           \<and> (\<not> midEdge agv \<longrightarrow>
                (\<exists>a2. updateAgv mapData graph randomMoveMode prevAgvs r1 r2 now a1 = Inr a2
                   \<and> status a2 = IDLE \<and> path a2 = [] \<and> reservedNodes a2 = []
                   \<and> targetNode a2 = Some nodeId \<and> waitReason a2 = None))
           \<and> (midEdge agv \<longrightarrow>
                (\<forall>a2. updateAgv mapData graph randomMoveMode prevAgvs r1 r2 now a1 = Inr a2 \<longrightarrow>
                   status a2 \<noteq> IDLE \<and> waitReason a2 \<noteq> Some ''no path''
                   \<and> (status a2 = MOVING \<longrightarrow>
                        path a2 = [hd (path agv)] \<and> targetNode a2 = Some nodeId)
                   \<and> (status a2 = COMPLETED \<longrightarrow>
                        currentNode a2 = hd (path agv) \<and> path a2 = [] \<and> targetNode a2 = None)))"
proof -
  let ?a1 = "agv\<lparr>targetNode := Some nodeId, path := pathPrefix agv, status := PLANNING,
                 waitTimer := 0, waitReason := None, retryCount := 0, pathRank := 0,
                 reservedNodes := take (hardBorrowLength agv) (pathPrefix agv)\<rparr>"
  from findPathGen_correct [OF wf key, of False "searchStartNode agv" "[]" "[]"] unreachable
  have nopath: "findPathJsx (searchStartNode agv) nodeId graph [] [] = Inr []"
    unfolding findPathJsx_def by auto
  have s: "setTarget graph nodeId agv = Inr ?a1"
    using nopath by (simp add: setTarget_def Let_def)
  have atNode: "\<exists>a2. updateAgv mapData graph randomMoveMode prevAgvs r1 r2 now ?a1 = Inr a2
                   \<and> status a2 = IDLE \<and> path a2 = [] \<and> reservedNodes a2 = []
                   \<and> targetNode a2 = Some nodeId \<and> waitReason a2 = None"
    if "\<not> midEdge agv"
  proof -
    have e: "pathPrefix agv = []" using that by (simp add: pathPrefix_def)
    have "updateAgv mapData graph randomMoveMode prevAgvs r1 r2 now ?a1 = Inr (idle ?a1)"
      by (rule planning_tick) (simp_all add: e)
    then show ?thesis by (simp add: idle_def Let_def e)
  qed
  have mid: "status a2 \<noteq> IDLE \<and> waitReason a2 \<noteq> Some ''no path''
               \<and> (status a2 = MOVING \<longrightarrow> path a2 = [hd (path agv)] \<and> targetNode a2 = Some nodeId)
               \<and> (status a2 = COMPLETED \<longrightarrow>
                    currentNode a2 = hd (path agv) \<and> path a2 = [] \<and> targetNode a2 = None)"
    if m: "midEdge agv" and t: "updateAgv mapData graph randomMoveMode prevAgvs r1 r2 now ?a1 = Inr a2"
    for a2
  proof -
    have e: "pathPrefix agv = [hd (path agv)]" using m by (simp add: pathPrefix_def)
    have ne: "nodeId \<noteq> []"
      using wf key unfolding wellFormedGraph_def graphKeys_def by blast
    have "autoPilot mapData graph randomMoveMode prevAgvs r1 r2 now ?a1 = None"
      by (simp add: autoPilot_def)
    then have mv: "movement mapData graph prevAgvs now ?a1 = Inr a2"
      using t by (simp add: updateAgv_def)
    have f: "targetNode ?a1 = Some nodeId" "path ?a1 = [hd (path agv)]" "status ?a1 = PLANNING"
      "waitReason ?a1 = None"
      by (simp_all add: e)
    from movement_outcome [OF f(1) ne f(2) f(3) f(4) mv] show ?thesis .
  qed
  show ?thesis
    using s atNode mid by (intro exI [of _ ?a1]) simp
qed

lemma findPathJsx_isolated: "findPathJsx ''A'' ''C'' graphABc [] [] = Inr []"
  by code_simp

lemma findPathJsx_isolated_B: "findPathJsx ''B'' ''C'' graphABc [] [] = Inr []"
  by code_simp

lemma idleAtA_fields: "currentNode idleAtA = ''A''" "path idleAtA = []"
  by (simp_all add: idleAtA_def parked_def nodeA_def)

lemma idleAtA_start: "\<not> midEdge idleAtA" "searchStartNode idleAtA = ''A''" "pathPrefix idleAtA = []"
  by (simp_all add: midEdge_def searchStartNode_def pathPrefix_def idleAtA_fields)

lemma arriving_start: "midEdge arriving" "searchStartNode arriving = ''B''"
  "pathPrefix arriving = [''B'']"
  by (simp_all add: midEdge_def searchStartNode_def pathPrefix_def arriving_def)

text \<open>
  C8, counterexample: C is isolated; a vehicle at A sent to C is PLANNING, not IDLE, after
  the call, no error is returned, and its \<^verbatim>\<open>waitReason\<close> is null after the call and
  after the next tick.
\<close>

theorem unreachable_target_counterexample:
  "setTarget graphABc ''C'' idleAtA = Inr planningC
   \<and> status planningC = PLANNING \<and> waitReason planningC = None
   \<and> updateAgv mapABc graphABc False [planningC] 0 0 7 planningC
     = Inr (planningC\<lparr>status := IDLE\<rparr>)
   \<and> targetNode (planningC\<lparr>status := IDLE\<rparr>) = Some ''C''
   \<and> waitReason (planningC\<lparr>status := IDLE\<rparr>) = None"
proof -
  have s: "setTarget graphABc ''C'' idleAtA = Inr planningC"
    by (simp add: setTarget_def Let_def idleAtA_start findPathJsx_isolated)
       (simp add: planningC_def idleAtA_def parked_def)
  have p: "status planningC = PLANNING" "path planningC = []"
    by (simp_all add: planningC_def idleAtA_fields)
  have t: "updateAgv mapABc graphABc False [planningC] 0 0 7 planningC = Inr (planningC\<lparr>status := IDLE\<rparr>)"
    by (simp add: planning_tick [OF p]) (simp add: idle_def planningC_def idleAtA_def parked_def)
  show ?thesis using s t by (simp add: planningC_def idleAtA_def parked_def)
qed

lemma wellFormed_ABc: "wellFormedGraph graphABc"
  by (simp add: wellFormedGraph_def graphABc_def gn_def)

lemma key_C_ABc: "''C'' \<in> graphKeys graphABc"
  by (simp add: graphKeys_def graphABc_def)

lemma no_route_AC: "\<not> (\<exists>steps. routeTo graphABc [] [] ''A'' ''C'' steps)"
  using findPathGen_correct [OF wellFormed_ABc key_C_ABc, of False "''A''" "[]" "[]"]
    findPathJsx_isolated
  unfolding findPathJsx_def by auto

lemma no_route_BC: "\<not> (\<exists>steps. routeTo graphABc [] [] ''B'' ''C'' steps)"
  using findPathGen_correct [OF wellFormed_ABc key_C_ABc, of False "''B''" "[]" "[]"]
    findPathJsx_isolated_B
  unfolding findPathJsx_def by auto

lemma findNode_A3: "findNode mapABc ''A'' = Some nodeA"
  by (simp add: findNode_def mapABc_def nodeA_def)

lemma findNode_B3: "findNode mapABc ''B'' = Some nodeB"
  by (simp add: findNode_def mapABc_def nodeA_def nodeB_def)

lemma redirect_click: "setTarget graphABc ''C'' arriving = Inr redirected"
  by (simp add: setTarget_def Let_def arriving_start findPathJsx_isolated_B)
     (simp add: redirected_def arriving_def parked_def)

lemma redirected_tick:
  "updateAgv mapABc graphABc False [redirected] r1 r2 now redirected = Inr completedAtB"
proof -
  have cur: "currentNode redirected = ''A''" "path redirected = [''B'']"
    "targetNode redirected = Some ''C''"
    by (simp_all add: redirected_def arriving_def fixture_defs)
  have v: "checkTrafficRules (redirected\<lparr>reservedNodes := r\<rparr>) [redirected] nodeA nodeB
      = \<lparr>action = MOVE, conflictReason = None, avoidData = None, blockerId = None\<rparr>" for r
    by (simp add: checkTrafficRules_def reservingAgv_def redirected_def arriving_def fixture_defs)
  show ?thesis
    apply (simp add: updateAgv_def autoPilot_def movement_def cur findNode_A3 findNode_B3 Let_def v)
    apply (simp add: physics_def brakes_def arrive_def convergeSpeed_def Let_def cur nodeA_def nodeB_def
        sqrt_10000 atan2_def)
    apply (simp add: redirected_def arriving_def completedAtB_def fixture_defs)
    done
qed

theorem unreachable_target_witness:
  "(\<exists>a2. setTarget graphABc ''C'' idleAtA = Inr planningC
        \<and> status planningC = PLANNING \<and> path planningC = [] \<and> reservedNodes planningC = []
        \<and> targetNode planningC = Some ''C'' \<and> waitReason planningC = None
        \<and> updateAgv mapABc graphABc False [planningC] 0 0 7 planningC = Inr a2
        \<and> status a2 = IDLE \<and> path a2 = [] \<and> reservedNodes a2 = []
        \<and> targetNode a2 = Some ''C'' \<and> waitReason a2 = None)
   \<and> setTarget graphABc ''C'' arriving = Inr redirected
   \<and> status redirected = PLANNING \<and> path redirected = [''B''] \<and> reservedNodes redirected = [''B'']
   \<and> targetNode redirected = Some ''C'' \<and> waitReason redirected = None
   \<and> updateAgv mapABc graphABc False [redirected] 0 0 7 redirected = Inr completedAtB
   \<and> status completedAtB = COMPLETED \<and> currentNode completedAtB = ''B''
   \<and> path completedAtB = [] \<and> targetNode completedAtB = None"
proof -
  have n1: "\<not> (\<exists>steps. routeTo graphABc [] [] (searchStartNode idleAtA) ''C'' steps)"
    by (simp only: idleAtA_start no_route_AC not_False_eq_True)
  have n2: "\<not> (\<exists>steps. routeTo graphABc [] [] (searchStartNode arriving) ''C'' steps)"
    by (simp only: arriving_start no_route_BC not_False_eq_True)
  have s1: "setTarget graphABc ''C'' idleAtA = Inr planningC"
    by (simp add: setTarget_def Let_def idleAtA_start findPathJsx_isolated)
       (simp add: planningC_def idleAtA_def parked_def)
  have hb: "hardBorrowLength arriving = 1" "hd (path arriving) = ''B''"
    by (simp_all add: arriving_def parked_def)
  have c: "status completedAtB = COMPLETED"
    by (simp add: completedAtB_def)
  show ?thesis
    using unreachable_target [OF wellFormed_ABc key_C_ABc n1, of mapABc False "[planningC]" 0 0 7]
      unreachable_target [OF wellFormed_ABc key_C_ABc n2, of mapABc False "[redirected]" 0 0 7]
    by (simp add: s1 redirect_click redirected_tick idleAtA_start arriving_start hb c)
qed


text \<open>
  C9, as the code has it: when the map has no nodes, spawning hands no fleet to
  \<^verbatim>\<open>setAgvs\<close>: the call fails before the fleet is updated, so the fleet is unchanged.
\<close>

theorem spawn_on_empty_map:
  assumes "nodes mapData = []"
  shows "isl (spawnAgv mapData fleetConfig agvs rNode rColor nowId nowPlan)"
  using assms by (simp add: spawnAgv_def spawnPool_def safeNodes_def pick_def Let_def)

text \<open>
  C9, counterexample: on the empty map the failure is the TypeError thrown by reading
  \<^verbatim>\<open>startNode.x\<close> of \<^verbatim>\<open>undefined\<close>, not a tagged result.
\<close>

theorem spawn_on_empty_map_counterexample:
  "spawnAgv emptyMap defaultFleetConfig [] 0 0 1 1 = Inl TypeError"
  by (simp add: spawnAgv_def spawnPool_def safeNodes_def pick_def emptyMap_def Let_def)

theorem spawn_on_empty_map_witness:
  "nodes emptyMap = [] \<and> isl (spawnAgv emptyMap defaultFleetConfig [] 0 0 1 1)"
  using spawn_on_empty_map [of emptyMap defaultFleetConfig "[]" 0 0 1 1] by (simp add: emptyMap_def)












end
